theory Spec2Isabelle
  imports Complex_Main "HOL-Library.Log_Nat"
begin

section \<open>Signal-processing and buffering engine of the EEG viewer (GUI.py)\<close>

text \<open>
  The theory embeds the parts of \<^verbatim>\<open>SegmentViewer\<close> (src/GUI.py) that segment a
  recording into windows, select display bounds, filter incoming chunks with persistent
  per-channel state, discard the first samples of a live session, keep the rolling stream
  buffer, smooth samples for display and track the band-power axis ceiling.

  The samples of the filter pipeline, of the stream buffer and of the smoother are
  modelled by real numbers with exact arithmetic; the one non-number that the code itself
  writes, \<^verbatim>\<open>np.nan\<close>, is a value of its own in the type of samples. The sample counts
  that the code takes with \<^verbatim>\<open>int\<close> from a float product (window, stride, warmup, buffer
  capacity, smoothing window) and the band-power ceiling depend on the last bit of a
  product or a sum; they are modelled in double precision: every float operation is the
  exact one followed by the rounding \<open>fl\<close> to the nearest double.
  Widgets, timers, the board driver and printing are left out: they hold no engine state.
\<close>

subsection \<open>Errors and numbers\<close>

datatype py_error = IndexError | KeyError | ValueError | ZeroDivisionError | AttributeError

text \<open>\<^verbatim>\<open>int(x)\<close> on a float truncates towards zero.\<close>

definition py_int :: "real \<Rightarrow> int" where
  "py_int x = (if 0 \<le> x then \<lfloor>x\<rfloor> else \<lceil>x\<rceil>)"

text \<open>\<^verbatim>\<open>round(x)\<close> rounds to the nearest integer, a tie to the even neighbour.\<close>

definition py_round :: "real \<Rightarrow> int" where
  "py_round x =
     (let f = \<lfloor>x\<rfloor>; d = x - of_int f
      in if d < 1 / 2 then f else if 1 / 2 < d then f + 1 else if even f then f else f + 1)"

subsection \<open>Double precision\<close>

text \<open>
  A Python float is an IEEE 754 double: a 53-bit significand times a power of two.
  For \<open>2 powi e \<le> \<bar>x\<bar> < 2 powi (e + 1)\<close> the doubles around \<open>x\<close> are the multiples of
  \<open>2 powi (e - 52)\<close>;
  \<open>double_exponent\<close> is that \<open>e\<close> and \<open>fl x\<close> the nearest multiple, a tie going to the even
  one (the default rounding mode, which CPython never changes). The exponent is left
  unbounded: overflow (beyond \<^verbatim>\<open>1.8e308\<close>) and the subnormal numbers (below
  \<^verbatim>\<open>2.3e-308\<close>) are not modelled.

  A float operation \<^verbatim>\<open>x * y\<close> or \<^verbatim>\<open>x + y\<close> returns \<open>fl\<close> of the exact result, a decimal
  literal \<^verbatim>\<open>0.8\<close> denotes \<open>fl 0.8\<close>, and an integer operand of a float operation is
  converted first, to \<open>fl\<close> of its value.
\<close>

definition double_exponent :: "real \<Rightarrow> int" where
  "double_exponent x =
     (if 1 \<le> x then int (floorlog 2 (nat \<lfloor>x\<rfloor>)) - 1
      else - int (floorlog 2 (nat \<lceil>1 / x\<rceil> - 1)))"

definition fl :: "real \<Rightarrow> real" where
  "fl x =
     (if x = 0 then 0
      else let u = 2 powi (double_exponent \<bar>x\<bar> - 52)
           in of_int (py_round (x / u)) * u)"

subsection \<open>Samples and matrices\<close>

text \<open>
  A sample is a float: a number, or \<^verbatim>\<open>np.nan\<close>, which every operation propagates.
  Division by zero is not reached by the code below (\<^verbatim>\<open>lfilter\<close> rejects a zero leading
  coefficient before dividing by it); it is given the value \<open>NaN\<close>.
\<close>

datatype sample = NaN | Num real

instantiation sample :: "{zero, plus, minus, times, inverse}"
begin

definition zero_sample :: sample where
  "zero_sample = Num 0"

fun plus_sample :: "sample \<Rightarrow> sample \<Rightarrow> sample" where
  "Num a + Num b = Num (a + b)"
| "NaN + v = NaN"
| "Num a + NaN = NaN"

fun minus_sample :: "sample \<Rightarrow> sample \<Rightarrow> sample" where
  "Num a - Num b = Num (a - b)"
| "NaN - v = NaN"
| "Num a - NaN = NaN"

fun times_sample :: "sample \<Rightarrow> sample \<Rightarrow> sample" where
  "Num a * Num b = Num (a * b)"
| "NaN * v = NaN"
| "Num a * NaN = NaN"

fun inverse_sample :: "sample \<Rightarrow> sample" where
  "inverse (Num a) = (if a = 0 then NaN else Num (inverse a))"
| "inverse NaN = NaN"

fun divide_sample :: "sample \<Rightarrow> sample \<Rightarrow> sample" where
  "divide_sample (Num a) (Num b) = (if b = 0 then NaN else Num (a / b))"
| "divide_sample NaN v = NaN"
| "divide_sample (Num a) NaN = NaN"

instance ..

end

definition isnan :: "sample \<Rightarrow> bool" where
  "isnan v = (case v of NaN \<Rightarrow> True | Num r \<Rightarrow> False)"

text \<open>
  A two-dimensional array is the list of its rows (channels), each the list of its
  samples. \<^verbatim>\<open>m.shape[1]\<close> is the length of the rows.
\<close>

type_synonym matrix = "sample list list"

definition shape1 :: "matrix \<Rightarrow> nat" where
  "shape1 m = (case m of [] \<Rightarrow> 0 | r # _ \<Rightarrow> length r)"

definition rectangular :: "nat \<Rightarrow> nat \<Rightarrow> matrix \<Rightarrow> bool" where
  "rectangular nrows ncols m = (length m = nrows \<and> list_all (\<lambda>r. length r = ncols) m)"

text \<open>
  The slice \<^verbatim>\<open>xs[-k:]\<close> for \<open>k \<ge> 0\<close>: the last \<open>k\<close> elements, and the whole of
  \<open>xs\<close> for \<open>k = 0\<close>, since \<^verbatim>\<open>-0\<close> is \<^verbatim>\<open>0\<close>.
\<close>

definition slice_from_neg :: "nat \<Rightarrow> 'a list \<Rightarrow> 'a list" where
  "slice_from_neg k xs = (if k = 0 then xs else drop (length xs - k) xs)"

text \<open>
  Assigning an array of \<open>r\<close> rows to a slice of \<open>k\<close> rows: the rows one to one, a
  single row repeated, and \<^verbatim>\<open>ValueError\<close> otherwise. The row lengths are those of the
  slice in every use below.
\<close>

definition broadcast_rows :: "nat \<Rightarrow> matrix \<Rightarrow> py_error + matrix" where
  "broadcast_rows k m =
     (if length m = k then Inr m
      else if length m = 1 then Inr (replicate k (hd m))
      else Inl ValueError)"

subsection \<open>Engine state\<close>

text \<open>
  The attributes of \<^verbatim>\<open>SegmentViewer\<close> that the functions below read or write.
  \<open>scipy_available\<close> is the module flag \<^verbatim>\<open>SCIPY_AVAILABLE\<close>; \<open>board_present\<close> says that
  \<^verbatim>\<open>self.board\<close> is not \<^verbatim>\<open>None\<close>. The coefficients and the state templates are what
  \<^verbatim>\<open>butter\<close>, \<^verbatim>\<open>iirnotch\<close> and \<^verbatim>\<open>lfilter_zi\<close> returned to
  \<^verbatim>\<open>calculate_filter_coefficients\<close>.
\<close>

record engine =
  scipy_available :: bool
  board_present :: bool
  sampling_rate :: int
  num_channels :: nat
  magnitude_scale :: int
  smoothing_enabled :: bool
  smooth_seconds :: real
  streaming_active :: bool
  file_loaded :: bool
  filter_coeffs_valid :: bool
  bandpass_b :: "sample list"
  bandpass_a :: "sample list"
  notch_b :: "sample list"
  notch_a :: "sample list"
  bandpass_zi_template :: "sample list"
  notch_zi_template :: "sample list"
  bandpass_zi :: "nat \<rightharpoonup> sample list"
  notch_zi :: "nat \<rightharpoonup> sample list"
  stream_buffer :: "matrix option"
  stream_warmup_remaining :: int
  smoothed_fft :: "nat \<rightharpoonup> real list"
  smoothed_band_power :: "string \<rightharpoonup> real"
  band_power_y_max :: real

subsection \<open>The library filter \<^verbatim>\<open>scipy.signal.lfilter\<close>\<close>

text \<open>
  \<^verbatim>\<open>lfilter(b, a, x, zi=zi)\<close> is SciPy's, not this repository's. It is modelled by the
  difference equations its documentation gives (direct form II transposed, coefficients
  divided by \<^verbatim>\<open>a[0]\<close>, \<open>K = max(len(a), len(b))\<close>):
  \<^verbatim>\<open>
  y[m]      = b[0]*x[m] + z[0,m-1]
  z[k,m]    = b[k+1]*x[m] + z[k+1,m-1] - a[k+1]*y[m]
  z[K-2,m]  = b[K-1]*x[m] - a[K-1]*y[m]
  \<close>
  and by its errors: \<^verbatim>\<open>ValueError\<close> for empty coefficients, for \<^verbatim>\<open>a[0] == 0\<close> and for an
  initial state whose length is not \<open>K - 1\<close>. It returns the output and the final state.
\<close>

definition pad_to :: "nat \<Rightarrow> sample list \<Rightarrow> sample list" where
  "pad_to k xs = xs @ replicate (k - length xs) 0"

definition df2t_step :: "sample list \<Rightarrow> sample list \<Rightarrow> sample list \<Rightarrow> sample \<Rightarrow> sample \<times> sample list" where
  "df2t_step b a z x =
     (let y = (case z of [] \<Rightarrow> hd b * x | z0 # _ \<Rightarrow> hd b * x + z0)
      in (y, map (\<lambda>(bk, ak, zk). bk * x + zk - ak * y)
                 (zip (tl b) (zip (tl a) (tl z @ [0])))))"

fun lfilter_run ::
  "sample list \<Rightarrow> sample list \<Rightarrow> sample list \<Rightarrow> sample list \<Rightarrow> sample list \<times> sample list" where
  "lfilter_run b a z [] = ([], z)"
| "lfilter_run b a z (x # xs) =
     (let (y, z') = df2t_step b a z x;
          (ys, zf) = lfilter_run b a z' xs
      in (y # ys, zf))"

definition lfilter ::
  "sample list \<Rightarrow> sample list \<Rightarrow> sample list \<Rightarrow> sample list
     \<Rightarrow> py_error + sample list \<times> sample list" where
  "lfilter b a x zi =
     (if a = [] \<or> b = [] then Inl ValueError
      else if hd a = 0 then Inl ValueError
      else let k = max (length a) (length b)
           in if length zi \<noteq> k - 1 then Inl ValueError
              else Inr (lfilter_run (map (\<lambda>v. v / hd a) (pad_to k b))
                                    (map (\<lambda>v. v / hd a) (pad_to k a)) zi x))"

subsection \<open>Stateful filter pipeline: \<^verbatim>\<open>process_signal\<close>\<close>

text \<open>
  The first lines of the \<^verbatim>\<open>try\<close> block, for one of the two state dictionaries:
  \<^verbatim>\<open>
  if i not in self.bandpass_zi:
      self.bandpass_zi[i] = self.bandpass_zi_template * channel_data[0]
  \<close>
  \<^verbatim>\<open>channel_data[0]\<close> raises \<^verbatim>\<open>IndexError\<close> on an empty chunk.
\<close>

definition init_zi ::
  "(nat \<rightharpoonup> sample list) \<Rightarrow> sample list \<Rightarrow> nat \<Rightarrow> sample list
     \<Rightarrow> py_error + (nat \<rightharpoonup> sample list)" where
  "init_zi zi template i channel_data =
     (if i \<in> dom zi then Inr zi
      else case channel_data of
             [] \<Rightarrow> Inl IndexError
           | x0 # _ \<Rightarrow> Inr (zi(i \<mapsto> map (\<lambda>t. t * x0) template)))"

text \<open>
  The \<^verbatim>\<open>try\<close> block of \<^verbatim>\<open>process_signal\<close> for channel \<open>i\<close>: the two
  initialisations, the bandpass filter, the notch filter. Each assignment that was
  executed before an exception stays in the state and in \<^verbatim>\<open>channel_data\<close>. The result
  is the state, \<^verbatim>\<open>channel_data\<close>, and the exception that left the block, if any.
\<close>

definition filter_try :: "engine \<Rightarrow> nat \<Rightarrow> sample list \<Rightarrow> engine \<times> sample list \<times> py_error option" where
  "filter_try s i channel_data =
     (case init_zi (bandpass_zi s) (bandpass_zi_template s) i channel_data of
        Inl e \<Rightarrow> (s, channel_data, Some e)
      | Inr bz \<Rightarrow>
          (let s1 = s\<lparr>bandpass_zi := bz\<rparr>
           in case init_zi (notch_zi s1) (notch_zi_template s1) i channel_data of
                Inl e \<Rightarrow> (s1, channel_data, Some e)
              | Inr nz \<Rightarrow>
                  (let s2 = s1\<lparr>notch_zi := nz\<rparr>
                   in case lfilter (bandpass_b s2) (bandpass_a s2) channel_data
                             (the (bandpass_zi s2 i)) of
                        Inl e \<Rightarrow> (s2, channel_data, Some e)
                      | Inr (y, zf) \<Rightarrow>
                          (let s3 = s2\<lparr>bandpass_zi := (bandpass_zi s2)(i \<mapsto> zf)\<rparr>
                           in case lfilter (notch_b s3) (notch_a s3) y (the (notch_zi s3 i)) of
                                Inl e \<Rightarrow> (s3, y, Some e)
                              | Inr (y2, zf2) \<Rightarrow>
                                  (s3\<lparr>notch_zi := (notch_zi s3)(i \<mapsto> zf2)\<rparr>, y2, None)))))"

text \<open>
  One iteration of the loop over the channels: the guarded \<^verbatim>\<open>try\<close> block with its
  \<^verbatim>\<open>except: pass\<close>, then the magnitude scaling
  \<^verbatim>\<open>channel_data * (self.magnitude_scale / 100.0)\<close>.
\<close>

definition filter_channel :: "engine \<Rightarrow> nat \<Rightarrow> sample list \<Rightarrow> engine \<times> sample list" where
  "filter_channel s i channel_data =
     (if scipy_available s \<and> filter_coeffs_valid s
      then (case filter_try s i channel_data of (s', d, e) \<Rightarrow> (s', d))
      else (s, channel_data))"

definition scale_factor :: "engine \<Rightarrow> sample" where
  "scale_factor s = Num (of_int (magnitude_scale s) / 100)"

definition scale_channel :: "engine \<Rightarrow> sample list \<Rightarrow> sample list" where
  "scale_channel s channel_data = map (\<lambda>v. v * scale_factor s) channel_data"

text \<open>
  \<^verbatim>\<open>processed[i, :] = channel_data\<close> writes a row of the length of the input row: a
  vector of that length, a single value repeated, and \<^verbatim>\<open>ValueError\<close> otherwise.
\<close>

definition assign_row :: "sample list \<Rightarrow> sample list \<Rightarrow> py_error + sample list" where
  "assign_row row channel_data =
     (if length channel_data = length row then Inr channel_data
      else if length channel_data = 1 then Inr (replicate (length row) (hd channel_data))
      else Inl ValueError)"

text \<open>
  The loop \<^verbatim>\<open>for i in range(data.shape[0])\<close>, from channel \<open>i\<close> on. The state comes
  back also when an exception leaves the loop.
\<close>

fun process_channels :: "engine \<Rightarrow> nat \<Rightarrow> matrix \<Rightarrow> engine \<times> (py_error + matrix)" where
  "process_channels s i [] = (s, Inr [])"
| "process_channels s i (row # rows) =
     (case filter_channel s i row of
        (s1, channel_data) \<Rightarrow>
          (case assign_row row (scale_channel s1 channel_data) of
             Inl e \<Rightarrow> (s1, Inl e)
           | Inr r \<Rightarrow>
               (case process_channels s1 (Suc i) rows of
                  (s2, Inl e) \<Rightarrow> (s2, Inl e)
                | (s2, Inr out) \<Rightarrow> (s2, Inr (r # out)))))"

definition process_signal :: "engine \<Rightarrow> matrix \<Rightarrow> engine \<times> (py_error + matrix)" where
  "process_signal s data = process_channels s 0 data"

subsection \<open>Live session: \<^verbatim>\<open>toggle_streaming_visualization\<close>\<close>

text \<open>
  Starting (the session is not active):
  \<^verbatim>\<open>
  self.streaming_active = True
  self.smoothed_fft.clear(); self.smoothed_band_power.clear(); self.band_power_y_max = 0.0
  self.bandpass_zi.clear(); self.notch_zi.clear()
  if self.stream_buffer is not None: self.stream_buffer[:] = np.nan
  self.stream_warmup_remaining = int(self.sampling_rate * 0.5)
  self.file_loaded = True
  \<close>
  Stopping (the session is active):
  \<^verbatim>\<open>
  self.streaming_active = False
  self.file_loaded = False
  \<close>
  The other statements of the function address widgets, the timer and the board.
\<close>

definition nan_fill :: "matrix \<Rightarrow> matrix" where
  "nan_fill buf = map (map (\<lambda>v. NaN)) buf"

definition toggle_streaming_visualization :: "engine \<Rightarrow> engine" where
  "toggle_streaming_visualization s =
     (if \<not> streaming_active s
      then s\<lparr> streaming_active := True,
              smoothed_fft := Map.empty,
              smoothed_band_power := Map.empty,
              band_power_y_max := 0,
              bandpass_zi := Map.empty,
              notch_zi := Map.empty,
              stream_buffer := map_option nan_fill (stream_buffer s),
              stream_warmup_remaining := py_int (fl (fl (of_int (sampling_rate s)) * fl 0.5)),
              file_loaded := True \<rparr>
      else s\<lparr> streaming_active := False, file_loaded := False \<rparr>)"

subsection \<open>Streaming ring buffer: \<^verbatim>\<open>resize_stream_buffer\<close>, \<^verbatim>\<open>update_stream_data\<close>\<close>

text \<open>
  \<^verbatim>\<open>
  new_buf_size = int(self.sampling_rate * new_window_sec)
  if new_buf_size < 10: new_buf_size = 10
  old_buf = self.stream_buffer
  old_size = old_buf.shape[1]
  new_buf = np.full((self.num_channels, new_buf_size), np.nan)
  copy_len = min(old_size, new_buf_size)
  new_buf[:, -copy_len:] = old_buf[:, -copy_len:]
  self.stream_buffer = new_buf
  self.smoothed_fft.clear()
  \<close>
  Without a buffer \<^verbatim>\<open>old_buf.shape\<close> raises; with \<open>copy_len = 0\<close> both slices are whole
  arrays, of different widths, and the assignment raises.
\<close>

definition resize_stream_buffer :: "engine \<Rightarrow> real \<Rightarrow> py_error + engine" where
  "resize_stream_buffer s new_window_sec =
     (let n0 = py_int (fl (fl (of_int (sampling_rate s)) * new_window_sec));
          new_buf_size = nat (if n0 < 10 then 10 else n0)
      in case stream_buffer s of
           None \<Rightarrow> Inl AttributeError
         | Some old_buf \<Rightarrow>
             (let old_size = shape1 old_buf;
                  copy_len = min old_size new_buf_size
              in if copy_len = 0 then Inl ValueError
                 else case broadcast_rows (num_channels s)
                             (map (slice_from_neg copy_len) old_buf) of
                        Inl e \<Rightarrow> Inl e
                      | Inr rows \<Rightarrow>
                          Inr (s\<lparr> stream_buffer :=
                                    Some (map (\<lambda>r. replicate (new_buf_size - copy_len) NaN @ r) rows),
                                  smoothed_fft := Map.empty \<rparr>)))"

text \<open>
  The warmup block of \<^verbatim>\<open>update_stream_data\<close>, on the counter
  \<^verbatim>\<open>self.stream_warmup_remaining\<close> and the processed chunk:
  \<^verbatim>\<open>
  if self.stream_warmup_remaining > 0:
      n = processed_data.shape[1]
      self.stream_warmup_remaining -= n
      if self.stream_warmup_remaining >= 0:
          return
      keep = -self.stream_warmup_remaining
      processed_data = processed_data[:, -keep:]
      self.stream_warmup_remaining = 0
  \<close>
  The result is the counter afterwards and the chunk that goes on to the buffer, \<open>None\<close>
  when the function returns here.
\<close>

definition warmup_discard :: "int \<Rightarrow> matrix \<Rightarrow> int \<times> matrix option" where
  "warmup_discard remaining processed_data =
     (if remaining > 0
      then (let n = int (shape1 processed_data);
                r = remaining - n
            in if r \<ge> 0 then (r, None)
               else (0, Some (map (slice_from_neg (nat (- r))) processed_data)))
      else (remaining, Some processed_data))"

text \<open>
  The rolling-buffer block of \<^verbatim>\<open>update_stream_data\<close>:
  \<^verbatim>\<open>
  new_samples = processed_data.shape[1]
  if new_samples > 0:
      buf_len = self.stream_buffer.shape[1]
      if new_samples >= buf_len:
          self.stream_buffer = processed_data[:, -buf_len:]
      else:
          self.stream_buffer[:, :-new_samples] = self.stream_buffer[:, new_samples:]
          self.stream_buffer[:, -new_samples:] = processed_data
  \<close>
  The result is the buffer afterwards and the exception raised, if any: the second
  assignment raises when the rows of the chunk do not fit those of the buffer, after the
  first has shifted the buffer.
\<close>

definition roll_buffer :: "matrix \<Rightarrow> matrix \<Rightarrow> matrix \<times> py_error option" where
  "roll_buffer buf processed_data =
     (let new_samples = shape1 processed_data
      in if new_samples > 0
         then (let buf_len = shape1 buf
               in if new_samples \<ge> buf_len
                  then (map (slice_from_neg buf_len) processed_data, None)
                  else (let shifted =
                              map (\<lambda>r. drop new_samples r @ drop (length r - new_samples) r) buf
                        in case broadcast_rows (length buf) processed_data of
                             Inl e \<Rightarrow> (shifted, Some e)
                           | Inr rows \<Rightarrow>
                               (map2 (\<lambda>r p. take (length r - new_samples) r @ p) shifted rows,
                                None)))
         else (buf, None))"

text \<open>
  \<^verbatim>\<open>update_stream_data\<close>, with \<open>data\<close> the EEG rows of what the board returned. Every
  exception is caught by the function's own \<^verbatim>\<open>except\<close>; what was assigned before it
  stays. The plot updates and the counter that throttles the spectral updates are left
  out.
\<close>

definition update_stream_data :: "engine \<Rightarrow> matrix \<Rightarrow> engine" where
  "update_stream_data s data =
     (if \<not> board_present s \<or> \<not> streaming_active s then s
      else if shape1 data = 0 then s
      else (case process_signal s data of
              (s1, Inl e) \<Rightarrow> s1
            | (s1, Inr processed_data) \<Rightarrow>
                (case warmup_discard (stream_warmup_remaining s1) processed_data of
                   (r, None) \<Rightarrow> s1\<lparr>stream_warmup_remaining := r\<rparr>
                 | (r, Some kept) \<Rightarrow>
                     (let s2 = s1\<lparr>stream_warmup_remaining := r\<rparr>
                      in case stream_buffer s2 of
                           None \<Rightarrow> s2
                         | Some buf \<Rightarrow>
                             s2\<lparr>stream_buffer := Some (fst (roll_buffer buf kept))\<rparr>))))"



definition no_sentinel :: "matrix \<Rightarrow> bool" where
  "no_sentinel m = list_all (list_all (\<lambda>v. \<not> isnan v)) m"

subsection \<open>Display smoother: \<^verbatim>\<open>smooth_display_data\<close>\<close>

text \<open>
  \<^verbatim>\<open>uniform_filter1d(x, size=win, mode='nearest')\<close> is SciPy's: output \<open>i\<close> is the mean
  of the \<open>win\<close> inputs at the positions \<open>i - win // 2, \<dots>, i - win // 2 + win - 1\<close>, a
  position outside the array standing for the nearest one inside.
\<close>

definition nearest_at :: "real list \<Rightarrow> int \<Rightarrow> real" where
  "nearest_at xs j = xs ! nat (max 0 (min j (int (length xs) - 1)))"

definition uniform_filter1d :: "real list \<Rightarrow> nat \<Rightarrow> real list" where
  "uniform_filter1d xs win =
     map (\<lambda>i. (\<Sum>k\<leftarrow>[0..<win]. nearest_at xs (int i - int (win div 2) + int k)) / real win)
         [0..<length xs]"

text \<open>
  \<^verbatim>\<open>
  if not self.smoothing_enabled: return data
  win = max(1, int(self.smooth_seconds * self.sampling_rate))
  if win <= 1 or not SCIPY_AVAILABLE: return data
  nan_mask = np.isnan(data)
  if np.all(nan_mask): return data
  clean = np.where(nan_mask, 0.0, data)
  out = uniform_filter1d(clean, size=win, mode='nearest')
  out[nan_mask] = np.nan
  return out
  \<close>
\<close>

definition clean_value :: "sample \<Rightarrow> real" where
  "clean_value v = (case v of NaN \<Rightarrow> 0 | Num r \<Rightarrow> r)"

definition smooth_win :: "engine \<Rightarrow> int" where
  "smooth_win s = max 1 (py_int (fl (smooth_seconds s * fl (of_int (sampling_rate s)))))"

definition smooth_display_data :: "engine \<Rightarrow> sample list \<Rightarrow> sample list" where
  "smooth_display_data s data =
     (if \<not> smoothing_enabled s then data
      else let win = smooth_win s
           in if win \<le> 1 \<or> \<not> scipy_available s then data
              else let nan_mask = map isnan data
                   in if list_all id nan_mask then data
                      else let clean = map clean_value data;
                               out = uniform_filter1d clean (nat win)
                           in map2 (\<lambda>m v. if m then NaN else Num v) nan_mask out)"

text \<open>
  The average that the specification describes for output \<open>i\<close>: the mean of the samples
  in the edge-extended window that are not the sentinel.
\<close>

definition window_samples :: "sample list \<Rightarrow> nat \<Rightarrow> nat \<Rightarrow> sample list" where
  "window_samples data win i =
     map (\<lambda>k. data ! nat (max 0 (min (int i - int (win div 2) + int k) (int (length data) - 1))))
         [0..<win]"

definition nan_excluding_mean :: "sample list \<Rightarrow> nat \<Rightarrow> nat \<Rightarrow> real" where
  "nan_excluding_mean data win i =
     (let vals = map clean_value (filter (\<lambda>v. \<not> isnan v) (window_samples data win i))
      in sum_list vals / real (length vals))"

subsection \<open>The pipeline, channel by channel\<close>

text \<open>The condition under which \<^verbatim>\<open>lfilter\<close> accepts coefficients and a state of length \<open>n\<close>.\<close>

definition lfilter_ok :: "sample list \<Rightarrow> sample list \<Rightarrow> nat \<Rightarrow> bool" where
  "lfilter_ok b a n = (a \<noteq> [] \<and> b \<noteq> [] \<and> hd a \<noteq> 0 \<and> n = max (length a) (length b) - 1)"

text \<open>
  The entries of the two state dictionaries for one channel, and the \<^verbatim>\<open>try\<close> block
  written on them alone: what \<open>filter_try\<close> does to channel \<open>i\<close> depends on the state
  only through the coefficients, the templates and the entries for \<open>i\<close>.
\<close>

type_synonym zi_pair = "sample list option \<times> sample list option"

definition local_init :: "sample list option \<Rightarrow> sample list \<Rightarrow> sample list \<Rightarrow> py_error + sample list" where
  "local_init z template channel_data =
     (case z of
        Some v \<Rightarrow> Inr v
      | None \<Rightarrow> (case channel_data of [] \<Rightarrow> Inl IndexError
                  | x0 # _ \<Rightarrow> Inr (map (\<lambda>t. t * x0) template)))"

definition local_try :: "engine \<Rightarrow> zi_pair \<Rightarrow> sample list \<Rightarrow> zi_pair \<times> sample list \<times> py_error option" where
  "local_try s st channel_data =
     (case local_init (fst st) (bandpass_zi_template s) channel_data of
        Inl e \<Rightarrow> (st, channel_data, Some e)
      | Inr z1 \<Rightarrow>
          (case local_init (snd st) (notch_zi_template s) channel_data of
             Inl e \<Rightarrow> ((Some z1, snd st), channel_data, Some e)
           | Inr z2 \<Rightarrow>
               (case lfilter (bandpass_b s) (bandpass_a s) channel_data z1 of
                  Inl e \<Rightarrow> ((Some z1, Some z2), channel_data, Some e)
                | Inr (y, zf) \<Rightarrow>
                    (case lfilter (notch_b s) (notch_a s) y z2 of
                       Inl e \<Rightarrow> ((Some zf, Some z2), y, Some e)
                     | Inr (y2, zf2) \<Rightarrow> ((Some zf, Some zf2), y2, None)))))"

definition local_channel :: "engine \<Rightarrow> zi_pair \<Rightarrow> sample list \<Rightarrow> zi_pair \<times> sample list" where
  "local_channel s st row =
     (if scipy_available s \<and> filter_coeffs_valid s
      then (case local_try s st row of (st', d, e) \<Rightarrow> (st', scale_channel s d))
      else (st, scale_channel s row))"

definition put_zi :: "engine \<Rightarrow> nat \<Rightarrow> zi_pair \<Rightarrow> engine" where
  "put_zi s i st = s\<lparr>bandpass_zi := (bandpass_zi s)(i := fst st),
                     notch_zi := (notch_zi s)(i := snd st)\<rparr>"

definition get_zi :: "engine \<Rightarrow> nat \<Rightarrow> zi_pair" where
  "get_zi s i = (bandpass_zi s i, notch_zi s i)"

text \<open>
  The state entries and the output rows after the loop has run over \<open>rows\<close>, the
  first of them being channel \<open>i\<close>.
\<close>

definition zi_after :: "engine \<Rightarrow> nat \<Rightarrow> matrix \<Rightarrow> nat \<Rightarrow> zi_pair" where
  "zi_after s i rows j =
     (if i \<le> j \<and> j < i + length rows
      then fst (local_channel s (get_zi s j) (rows ! (j - i)))
      else get_zi s j)"

definition out_rows :: "engine \<Rightarrow> nat \<Rightarrow> matrix \<Rightarrow> matrix" where
  "out_rows s i rows =
     map (\<lambda>k. snd (local_channel s (get_zi s (i + k)) (rows ! k))) [0..<length rows]"

definition with_zi :: "engine \<Rightarrow> (nat \<Rightarrow> zi_pair) \<Rightarrow> engine" where
  "with_zi s f = s\<lparr>bandpass_zi := (\<lambda>j. fst (f j)), notch_zi := (\<lambda>j. snd (f j))\<rparr>"


text \<open>
  The notch stage is consistent for channel \<open>i\<close>: its coefficients are usable, its
  template has the length of a filter state, and so has the stored state of the channel,
  if there is one. \<^verbatim>\<open>calculate_filter_coefficients\<close> sets coefficients and template
  together and clears the stored states; \<^verbatim>\<open>process_signal\<close> stores only states made
  from the template or returned by \<^verbatim>\<open>lfilter\<close>.
\<close>

definition notch_consistent :: "engine \<Rightarrow> nat \<Rightarrow> bool" where
  "notch_consistent s i =
     (notch_a s \<noteq> [] \<and> notch_b s \<noteq> [] \<and> hd (notch_a s) \<noteq> 0
      \<and> length (notch_zi_template s) = max (length (notch_a s)) (length (notch_b s)) - 1
      \<and> (case notch_zi s i of None \<Rightarrow> True
          | Some z \<Rightarrow> length z = length (notch_zi_template s)))"

subsection \<open>An engine state for the examples\<close>

text \<open>
  Two channels at 250 Hz, display gain 200 percent, a first-order band-pass stage and a
  second-order notch stage with small coefficients, no filter state stored yet.
\<close>

definition demo_engine :: engine where
  "demo_engine =
     \<lparr> scipy_available = True, board_present = True, sampling_rate = 250, num_channels = 2,
       magnitude_scale = 200, smoothing_enabled = True, smooth_seconds = 1 / 64,
       streaming_active = False, file_loaded = False, filter_coeffs_valid = True,
       bandpass_b = [Num 1, Num 2], bandpass_a = [Num 2, Num 1],
       notch_b = [Num 1, Num 0, Num 1], notch_a = [Num 1, Num 0, Num (1 / 2)],
       bandpass_zi_template = [Num 3], notch_zi_template = [Num 0, Num 1],
       bandpass_zi = Map.empty, notch_zi = Map.empty,
       stream_buffer = Some [[NaN, NaN, NaN, NaN], [NaN, NaN, NaN, NaN]],
       stream_warmup_remaining = 0, smoothed_fft = Map.empty,
       smoothed_band_power = Map.empty, band_power_y_max = 0 \<rparr>"

text \<open>
  The same engine in the middle of a live session: the session is active, filter
  states, smoothing caches and the axis ceiling are set, and the buffer holds samples.
\<close>

definition stopped_demo :: engine where
  "stopped_demo = demo_engine\<lparr> streaming_active := True, file_loaded := True,
       bandpass_zi := [0 \<mapsto> [Num 5]], notch_zi := [0 \<mapsto> [Num 1, Num 2]],
       smoothed_fft := [0 \<mapsto> [1, 2]], smoothed_band_power := [''Alpha'' \<mapsto> 3],
       band_power_y_max := 4,
       stream_buffer := Some [[Num 1, Num 2, Num 3, Num 4], [Num 5, Num 6, Num 7, Num 8]] \<rparr>"

subsection \<open>Window segmenter: \<^verbatim>\<open>recalculate_windows\<close>\<close>

text \<open>
  \<^verbatim>\<open>
  self.window_size_samples = int(self.window_size_sec * self.sampling_rate)
  self.stride = int(self.window_size_samples * 0.8)
  total_samples = self.raw_data.shape[1]
  self.num_windows = max(1, (total_samples - self.window_size_samples) // self.stride + 1)
  \<close>
  The floor division raises \<^verbatim>\<open>ZeroDivisionError\<close> when the stride is zero. The
  sampling rate is the argument \<open>fs\<close>, the number of columns of \<^verbatim>\<open>raw_data\<close> the
  argument \<open>total_samples\<close>. Both products are float products, rounded to a double
  before \<^verbatim>\<open>int\<close> truncates them: \<^verbatim>\<open>int(0.7 * 10)\<close> is 7, the exact product of the double
  \<^verbatim>\<open>0.7\<close> and 10 lying just below 7.
\<close>

record window_params =
  window_size_samples :: int
  stride :: int
  num_windows :: int

definition recalculate_windows :: "real \<Rightarrow> int \<Rightarrow> int \<Rightarrow> py_error + window_params" where
  "recalculate_windows window_size_sec fs total_samples =
     (let wss = py_int (fl (window_size_sec * fl (of_int fs)));
          st = py_int (fl (fl (of_int wss) * fl 0.8))
      in if st = 0 then Inl ZeroDivisionError
         else Inr \<lparr> window_size_samples = wss, stride = st,
                    num_windows = max 1 ((total_samples - wss) div st + 1) \<rparr>)"

subsection \<open>Bounds selection: \<^verbatim>\<open>get_iqr_bounds_for_channels\<close>, \<^verbatim>\<open>get_minmax_bounds_for_channels\<close>\<close>

text \<open>
  Both functions run the same loop over the requested channels, one on
  \<^verbatim>\<open>self.channel_iqr_bounds\<close> and one on \<^verbatim>\<open>self.channel_minmax_bounds\<close>:
  \<^verbatim>\<open>
  max_range = 0
  best_bounds = None
  for ch_idx in channel_indices:
      y_min, y_max = bounds[ch_idx]
      range_size = y_max - y_min
      if range_size > max_range:
          max_range = range_size
          best_bounds = (y_min, y_max)
  return best_bounds
  \<close>
  A missing key raises \<^verbatim>\<open>KeyError\<close>; the result \<^verbatim>\<open>None\<close> is \<open>None\<close> here.
\<close>

type_synonym bounds = "real \<times> real"

fun bounds_loop ::
  "(nat \<rightharpoonup> bounds) \<Rightarrow> nat list \<Rightarrow> real \<Rightarrow> bounds option \<Rightarrow> py_error + bounds option" where
  "bounds_loop bs [] max_range best_bounds = Inr best_bounds"
| "bounds_loop bs (ch_idx # rest) max_range best_bounds =
     (case bs ch_idx of
        None \<Rightarrow> Inl KeyError
      | Some (y_min, y_max) \<Rightarrow>
          (let range_size = y_max - y_min
           in if range_size > max_range
              then bounds_loop bs rest range_size (Some (y_min, y_max))
              else bounds_loop bs rest max_range best_bounds))"

record bounds_tables =
  channel_iqr_bounds :: "nat \<rightharpoonup> bounds"
  channel_minmax_bounds :: "nat \<rightharpoonup> bounds"

definition get_iqr_bounds_for_channels ::
  "bounds_tables \<Rightarrow> nat list \<Rightarrow> py_error + bounds option" where
  "get_iqr_bounds_for_channels t channel_indices =
     (if channel_indices = [] then Inr (Some (0, 1))
      else bounds_loop (channel_iqr_bounds t) channel_indices 0 None)"

definition get_minmax_bounds_for_channels ::
  "bounds_tables \<Rightarrow> nat list \<Rightarrow> py_error + bounds option" where
  "get_minmax_bounds_for_channels t channel_indices =
     (if channel_indices = [] then Inr (Some (0, 1))
      else bounds_loop (channel_minmax_bounds t) channel_indices 0 None)"

text \<open>A pair \<open>p\<close> covers a pair \<open>q\<close> when the interval of \<open>q\<close> lies inside that of \<open>p\<close>.\<close>

definition covers :: "bounds \<Rightarrow> bounds \<Rightarrow> bool" where
  "covers p q = (fst p \<le> fst q \<and> snd q \<le> snd p)"

definition range_of :: "bounds \<Rightarrow> real" where
  "range_of p = snd p - fst p"

text \<open>
  The result is the pair of a requested channel, and no requested channel has a larger
  range.
\<close>

definition selects_widest ::
  "(nat \<rightharpoonup> bounds) \<Rightarrow> nat list \<Rightarrow> py_error + bounds option \<Rightarrow> bool" where
  "selects_widest bs channel_indices res =
     (\<exists>p. res = Inr (Some p) \<and> (\<exists>c \<in> set channel_indices. bs c = Some p)
          \<and> (\<forall>c \<in> set channel_indices. range_of (the (bs c)) \<le> range_of p))"

subsection \<open>Band-power axis ceiling: \<^verbatim>\<open>update_band_power\<close>, \<^verbatim>\<open>calculate_band_power_for_file\<close>\<close>

text \<open>
  \<^verbatim>\<open>
  current_max = max(band_values) if band_values else 1.0
  if current_max > self.band_power_y_max:
      self.band_power_y_max = current_max
  else:
      self.band_power_y_max = 0.995 * self.band_power_y_max + 0.005 * current_max
  \<close>
  The same lines end both functions; \<open>y_max\<close> is \<^verbatim>\<open>self.band_power_y_max\<close> before and
  the result is its value after. The blend is three float operations on two float
  literals: two products and their sum, each rounded to a double.
\<close>

definition current_max_of :: "real list \<Rightarrow> real" where
  "current_max_of band_values =
     (case band_values of [] \<Rightarrow> 1 | v # vs \<Rightarrow> fold max vs v)"

definition track_y_max :: "real \<Rightarrow> real list \<Rightarrow> real" where
  "track_y_max y_max band_values =
     (let current_max = current_max_of band_values
      in if current_max > y_max then current_max
         else fl (fl (fl 0.995 * y_max) + fl (fl 0.005 * current_max)))"

section \<open>Properties\<close>

subsection \<open>Double precision\<close>

lemma double_exponent_ge1:
  assumes "1 \<le> x"
  shows "0 \<le> double_exponent x"
    and "2 powi (double_exponent x) \<le> x"
    and "x < 2 powi (double_exponent x + 1)"
proof -
  let ?n = "nat \<lfloor>x\<rfloor>"
  let ?k = "floorlog 2 ?n"
  from assms have n: "0 < ?n" by simp
  from floorlog_bounds [OF n, of 2] have lo: "2 ^ (?k - 1) \<le> ?n" and hi: "?n < 2 ^ ?k" by simp_all
  from n have k: "0 < ?k" by (simp add: floorlog_def)
  have e: "double_exponent x = int ?k - 1" using assms by (simp add: double_exponent_def)
  show "0 \<le> double_exponent x" using k e by simp
  have enat: "double_exponent x = int (?k - 1)" using k e by simp
  have "(2::real) ^ (?k - 1) \<le> real ?n" using lo by (metis of_nat_le_iff of_nat_numeral of_nat_power)
  also have "real ?n \<le> x" using assms by linarith
  finally show "2 powi (double_exponent x) \<le> x" unfolding enat by simp
  have "double_exponent x + 1 = int ?k" using e by simp
  moreover have "x < real ?n + 1" using assms by linarith
  moreover have "real ?n + 1 \<le> 2 ^ ?k"
  proof -
    from hi have "?n + 1 \<le> 2 ^ ?k" by linarith
    then have "real (?n + 1) \<le> real (2 ^ ?k)" by (rule of_nat_mono)
    then show ?thesis by simp
  qed
  ultimately show "x < 2 powi (double_exponent x + 1)" by simp
qed

lemma double_exponent_lt1:
  assumes "0 < x" "x < 1"
  shows "2 powi (double_exponent x) \<le> x"
    and "x < 2 powi (double_exponent x + 1)"
proof -
  let ?y = "1 / x"
  let ?n = "nat \<lceil>?y\<rceil>"
  let ?m = "?n - 1"
  let ?k = "floorlog 2 ?m"
  from assms have y1: "1 < ?y" by simp
  then have c2: "2 \<le> \<lceil>?y\<rceil>" by linarith
  then have m: "0 < ?m" by simp
  from floorlog_bounds [OF m, of 2] have lo: "2 ^ (?k - 1) \<le> ?m" and hi: "?m < 2 ^ ?k" by simp_all
  from m have k: "0 < ?k" by (simp add: floorlog_def)
  have e: "double_exponent x = - int ?k" using assms by (simp add: double_exponent_def)
  have "?n \<le> 2 ^ ?k" using hi m by linarith
  then have "real ?n \<le> real (2 ^ ?k)" by (rule of_nat_mono)
  then have nk: "real ?n \<le> 2 ^ ?k" by simp
  have "?y \<le> real ?n" using c2 by linarith
  from this nk have yk: "?y \<le> 2 ^ ?k" by (rule order_trans)
  have "1 / 2 ^ ?k \<le> x"
  proof -
    from yk assms have "1 \<le> 2 ^ ?k * x" by (simp add: field_simps)
    then show ?thesis by (simp add: field_simps)
  qed
  then show "2 powi (double_exponent x) \<le> x"
    unfolding e by (simp add: power_int_minus field_simps)
  have "real (2 ^ (?k - 1)) \<le> real ?m" using lo by (rule of_nat_mono)
  then have "2 ^ (?k - 1) \<le> real ?m" by simp
  moreover have "real ?m < ?y" using c2 by linarith
  ultimately have "2 ^ (?k - 1) < ?y" by (rule le_less_trans)
  then have "x * 2 ^ (?k - 1) < 1" using assms by (simp add: field_simps)
  then have lt: "x < 1 / 2 ^ (?k - 1)" by (simp add: field_simps)
  have "double_exponent x + 1 = - int (?k - 1)" using e k by simp
  then show "x < 2 powi (double_exponent x + 1)"
    using lt by (simp add: power_int_minus field_simps)
qed

lemma double_exponent_bounds:
  assumes "0 < x"
  shows "2 powi (double_exponent x) \<le> x \<and> x < 2 powi (double_exponent x + 1)"
  using double_exponent_ge1 (2,3) [of x] double_exponent_lt1 [of x] assms
  by (cases "1 \<le> x") auto

lemma py_round_error: "\<bar>of_int (py_round q) - q\<bar> \<le> 1 / 2"
  unfolding py_round_def Let_def by (auto simp: abs_if) linarith+

lemma py_round_ge:
  assumes "of_int n \<le> q"
  shows "n \<le> py_round q"
proof -
  from assms have "n \<le> \<lfloor>q\<rfloor>" by (simp add: le_floor_iff)
  moreover have "\<lfloor>q\<rfloor> \<le> py_round q" by (simp add: py_round_def Let_def)
  ultimately show ?thesis by simp
qed

lemma py_round_nonneg: "0 \<le> q \<Longrightarrow> 0 \<le> py_round q"
  using py_round_ge [of 0 q] by simp


lemma fl_nonneg: "0 \<le> x \<Longrightarrow> 0 \<le> fl x"
proof (cases "x = 0")
  case True
  then show ?thesis by (simp add: fl_def)
next
  case False
  assume "0 \<le> x"
  let ?u = "(2::real) powi (double_exponent \<bar>x\<bar> - 52)"
  have u: "0 < ?u" by simp
  with \<open>0 \<le> x\<close> have "0 \<le> x / ?u" by simp
  then have "0 \<le> py_round (x / ?u)" by (rule py_round_nonneg)
  with u False show ?thesis by (simp add: fl_def Let_def)
qed

lemma fl_error:
  assumes "0 < x"
  shows "\<bar>fl x - x\<bar> \<le> x / 2 ^ 53"
proof -
  let ?e = "double_exponent x"
  let ?u = "(2::real) powi (?e - 52)"
  have u: "0 < ?u" by simp
  from assms have ax: "\<bar>x\<bar> = x" by simp
  have f: "fl x = of_int (py_round (x / ?u)) * ?u"
    using assms by (simp add: fl_def Let_def ax)
  have "fl x - x = (of_int (py_round (x / ?u)) - x / ?u) * ?u"
    unfolding f using u by (simp add: field_simps)
  then have "\<bar>fl x - x\<bar> = \<bar>of_int (py_round (x / ?u)) - x / ?u\<bar> * ?u"
    using u by (simp add: abs_mult)
  also have "\<dots> \<le> 1 / 2 * ?u"
    using py_round_error [of "x / ?u"] u by (intro mult_right_mono) simp_all
  also have "1 / 2 * ?u = 2 powi ?e / 2 ^ 53"
  proof -
    have "(2::real) powi (?e - 52) = 2 powi ?e / 2 ^ 52"
      by (simp add: power_int_diff)
    then show ?thesis by simp
  qed
  also have "\<dots> \<le> x / 2 ^ 53"
    using double_exponent_bounds [OF assms] by (simp add: divide_right_mono)
  finally show ?thesis .
qed

lemma fl_lower:
  assumes "0 \<le> x"
  shows "x * (1 - 1 / 2 ^ 53) \<le> fl x"
proof (cases "x = 0")
  case True
  then show ?thesis by (simp add: fl_def)
next
  case False
  with assms have "0 < x" by simp
  from fl_error [OF this] have "x - x / 2 ^ 53 \<le> fl x" by linarith
  then show ?thesis by (simp add: algebra_simps)
qed

lemma fl_ge_one:
  assumes "1 \<le> x"
  shows "1 \<le> fl x"
proof -
  let ?e = "double_exponent x"
  let ?u = "(2::real) powi (?e - 52)"
  have u: "0 < ?u" by simp
  from assms have ax: "\<bar>x\<bar> = x" and x0: "x \<noteq> 0" by simp_all
  have f: "fl x = of_int (py_round (x / ?u)) * ?u"
    using x0 by (simp add: fl_def Let_def ax)
  have split: "(2::real) powi ?e = 2 ^ 52 * ?u" by (simp add: power_int_diff)
  from double_exponent_ge1 [OF assms] have e0: "0 \<le> ?e" and lo: "2 powi ?e \<le> x" by simp_all
  from lo have "2 ^ 52 * ?u \<le> x" unfolding split .
  then have "(2::real) ^ 52 \<le> x / ?u" using u by (simp add: field_simps)
  then have "of_int (2 ^ 52) \<le> x / ?u" by simp
  then have "2 ^ 52 \<le> py_round (x / ?u)" by (rule py_round_ge)
  then have "(2::real) ^ 52 \<le> of_int (py_round (x / ?u))"
    by (metis of_int_le_iff of_int_numeral of_int_power)
  then have "2 ^ 52 * ?u \<le> of_int (py_round (x / ?u)) * ?u"
    using u by (intro mult_right_mono) simp_all
  then have "2 powi ?e \<le> fl x" unfolding f split .
  moreover have "(1::real) \<le> 2 powi ?e" using e0 by (simp add: one_le_power_int)
  ultimately show ?thesis by simp
qed

lemma fl_0_8: "fl 0.8 = 3602879701896397 / 4503599627370496"
  by code_simp

subsection \<open>Band-power axis ceiling\<close>

lemma fold_max_ge: "(a::real) \<le> fold max vs a"
  by (induction vs arbitrary: a) (auto intro: order_trans [OF max.cobounded2])

lemma fold_max_upper: "v \<in> set vs \<Longrightarrow> (v::real) \<le> fold max vs a"
proof (induction vs arbitrary: a)
  case Nil
  then show ?case by simp
next
  case (Cons w ws)
  show ?case
  proof (cases "v = w")
    case True
    have "w \<le> max w a" by simp
    also have "\<dots> \<le> fold max ws (max w a)" by (rule fold_max_ge)
    finally show ?thesis using True by simp
  next
    case False
    with Cons.prems have "v \<in> set ws" by simp
    then show ?thesis using Cons.IH by simp
  qed
qed

lemma current_max_of_upper: "v \<in> set band_values \<Longrightarrow> v \<le> current_max_of band_values"
proof (cases band_values)
  case Nil
  assume "v \<in> set band_values"
  with Nil show ?thesis by simp
next
  case (Cons w ws)
  assume "v \<in> set band_values"
  with Cons have "v = w \<or> v \<in> set ws" by auto
  then show ?thesis
    using Cons fold_max_ge [of w ws] fold_max_upper [of v ws w]
    by (auto simp: current_max_of_def)
qed

lemma decay_blend_lower:
  assumes y: "0 \<le> y" and m: "0 \<le> m"
  shows "(0.995 * y + 0.005 * m) * (1 - 1 / 2 ^ 51)
           \<le> fl (fl (fl 0.995 * y) + fl (fl 0.005 * m))"
proof -
  define t :: real where "t = 1 - 1 / 2 ^ 53"
  have t0: "0 \<le> t" and t1: "t \<le> 1" by (simp_all add: t_def)
  have low: "x * t \<le> fl x" if "0 \<le> x" for x
    using fl_lower [OF that] by (simp add: t_def)
  have a: "0.995 * t \<le> fl 0.995" using low [of "0.995"] by simp
  have b: "0.005 * t \<le> fl 0.005" using low [of "0.005"] by simp
  have a0: "0 \<le> fl 0.995" and b0: "0 \<le> fl 0.005" by (simp_all add: fl_nonneg)
  have p1: "0.995 * y * (t * t) \<le> fl (fl 0.995 * y)"
  proof -
    have "0.995 * t * y \<le> fl 0.995 * y" using a y by (rule mult_right_mono)
    then have "0.995 * t * y * t \<le> fl 0.995 * y * t" using t0 by (rule mult_right_mono)
    also have "\<dots> \<le> fl (fl 0.995 * y)" using a0 y by (intro low) simp
    finally show ?thesis by (simp add: mult_ac)
  qed
  have p2: "0.005 * m * (t * t) \<le> fl (fl 0.005 * m)"
  proof -
    have "0.005 * t * m \<le> fl 0.005 * m" using b m by (rule mult_right_mono)
    then have "0.005 * t * m * t \<le> fl 0.005 * m * t" using t0 by (rule mult_right_mono)
    also have "\<dots> \<le> fl (fl 0.005 * m)" using b0 m by (intro low) simp
    finally show ?thesis by (simp add: mult_ac)
  qed
  let ?s = "fl (fl 0.995 * y) + fl (fl 0.005 * m)"
  have s0: "0 \<le> ?s" using a0 b0 y m by (intro add_nonneg_nonneg fl_nonneg) simp_all
  have base: "0 \<le> 0.995 * y + 0.005 * m" using y m by simp
  have "(0.995 * y + 0.005 * m) * (t * t) \<le> ?s" using p1 p2 by (simp add: algebra_simps)
  then have "(0.995 * y + 0.005 * m) * (t * t) * t \<le> ?s * t" using t0 by (rule mult_right_mono)
  also have "?s * t \<le> fl ?s" using s0 by (rule low)
  finally have main: "(0.995 * y + 0.005 * m) * (t * t * t) \<le> fl ?s" by (simp add: mult_ac)
  have "1 - 1 / 2 ^ 51 \<le> t * t * t" by (simp add: t_def)
  then have "(0.995 * y + 0.005 * m) * (1 - 1 / 2 ^ 51) \<le> (0.995 * y + 0.005 * m) * (t * t * t)"
    using base by (rule mult_left_mono)
  with main show ?thesis by simp
qed

text \<open>
  C8 as stated does not hold: the ceiling can end below the observed maximum. When the
  observed maximum equals the ceiling, at 7.125, the blend of the two in double precision
  is \<^verbatim>\<open>0.995 * 7.125 + 0.005 * 7.125 = 7.124999999999999\<close>, one unit in the last place
  below both.
\<close>

theorem band_power_ceiling_counterexample:
  "current_max_of [57 / 8, 1, 3, 3, 2, 1] = 57 / 8
   \<and> track_y_max (57 / 8) [57 / 8, 1, 3, 3, 2, 1] = 57 / 8 - 1 / 2 ^ 50
   \<and> track_y_max (57 / 8) [57 / 8, 1, 3, 3, 2, 1] < current_max_of [57 / 8, 1, 3, 3, 2, 1]"
  by code_simp

text \<open>
  C8, amended. On every update of the band-power display the ceiling becomes the observed
  maximum when that exceeds it, and is then at least every band value of the update;
  otherwise it becomes the double-precision value of 0.995 of the old ceiling plus 0.005
  of the observed maximum (both products and the sum rounded). Band powers being
  non-negative, the new ceiling is in both cases at least the observed maximum and at
  least 0.995 times the old ceiling, each up to the relative rounding error
  \<open>1 / 2 ^ 51\<close> of the three operations.
\<close>

theorem band_power_ceiling:
  assumes "\<forall>v \<in> set band_values. 0 \<le> v"
  shows "track_y_max y band_values =
           (if current_max_of band_values > y then current_max_of band_values
            else fl (fl (fl 0.995 * y) + fl (fl 0.005 * current_max_of band_values)))
         \<and> (current_max_of band_values > y \<longrightarrow>
              (\<forall>v \<in> set band_values. v \<le> track_y_max y band_values))
         \<and> current_max_of band_values * (1 - 1 / 2 ^ 51) \<le> track_y_max y band_values
         \<and> 0.995 * y * (1 - 1 / 2 ^ 51) \<le> track_y_max y band_values"
proof -
  let ?m = "current_max_of band_values"
  let ?c = "1 - 1 / 2 ^ 51 :: real"
  have c: "0 \<le> ?c" "?c \<le> 1" by simp_all
  have eq: "track_y_max y band_values =
      (if ?m > y then ?m else fl (fl (fl 0.995 * y) + fl (fl 0.005 * ?m)))"
    by (simp add: track_y_max_def Let_def)
  have nonneg: "0 \<le> ?m"
  proof (cases band_values)
    case Nil
    then show ?thesis by (simp add: current_max_of_def)
  next
    case (Cons w ws)
    then have "0 \<le> w" using assms by simp
    also have "w \<le> ?m" using Cons current_max_of_upper [of w] by simp
    finally show ?thesis .
  qed
  have rise: "?m > y \<longrightarrow> (\<forall>v \<in> set band_values. v \<le> track_y_max y band_values)"
    unfolding eq using current_max_of_upper by auto
  have mc: "?m * ?c \<le> ?m" using nonneg c by (simp add: mult_left_le)
  have bounds: "?m * ?c \<le> track_y_max y band_values
      \<and> 0.995 * y * ?c \<le> track_y_max y band_values"
  proof (cases "?m > y")
    case True
    have "0.995 * y * ?c \<le> ?m"
    proof (cases "0 \<le> y")
      case y: True
      then have "0.995 * y * ?c \<le> 0.995 * y" using c by (simp add: mult_left_le)
      also have "\<dots> \<le> y" using y by simp
      finally show ?thesis using True by simp
    next
      case False
      then have "0.995 * y * ?c \<le> 0" using c by (simp add: mult_nonpos_nonneg)
      with nonneg show ?thesis by simp
    qed
    with True mc show ?thesis unfolding eq by simp
  next
    case False
    then have my: "?m \<le> y" by simp
    with nonneg have y: "0 \<le> y" by simp
    let ?b = "0.995 * y + 0.005 * ?m"
    from decay_blend_lower [OF y nonneg]
    have low: "?b * ?c \<le> fl (fl (fl 0.995 * y) + fl (fl 0.005 * ?m))" .
    have "?m \<le> ?b" using my by simp
    then have 1: "?m * ?c \<le> ?b * ?c" using c(1) by (rule mult_right_mono)
    have "0.995 * y \<le> ?b" using nonneg by simp
    then have 2: "0.995 * y * ?c \<le> ?b * ?c" using c(1) by (rule mult_right_mono)
    from 1 2 low False show ?thesis unfolding eq by simp
  qed
  from eq rise bounds show ?thesis by blast
qed

theorem band_power_ceiling_witness:
  "8 * (1 - 1 / 2 ^ 51) \<le> track_y_max 10 [2, 8, 4, 4, 1, 0]
   \<and> 0.995 * 10 * (1 - 1 / 2 ^ 51) \<le> track_y_max 10 [2, 8, 4, 4, 1, 0]
   \<and> track_y_max 3 [2, 8, 4, 4, 1, 0] = 8"
proof -
  have h: "\<forall>v \<in> set [2, 8, 4, 4, 1, 0 :: real]. 0 \<le> v" by simp
  have m: "current_max_of [2, 8, 4, 4, 1, 0 :: real] = 8"
    by (simp add: current_max_of_def)
  from band_power_ceiling [OF h, of 10] band_power_ceiling [OF h, of 3]
  show ?thesis unfolding m by simp
qed

subsection \<open>Window segmenter\<close>

text \<open>
  C7 as stated does not hold: the segmenter truncates where the claim rounds, and
  nothing keeps the stride from being zero. At 1.5 s and 125 Hz it computes 187 samples
  and a stride of 149, where rounding gives 188 and 150; at 0.5 s and 3 Hz the window is
  one sample long and the stride is 0.
\<close>

theorem window_arithmetic_counterexample:
  "recalculate_windows (3 / 2) 125 1000 =
     Inr \<lparr> window_size_samples = 187, stride = 149, num_windows = 6 \<rparr>
   \<and> py_round (fl (3 / 2 * fl 125)) = 188
   \<and> py_round (fl (fl 0.8 * fl 188)) = 150
   \<and> py_int (fl (1 / 2 * fl 3)) = 1
   \<and> py_int (fl (fl 1 * fl 0.8)) = 0"
  by code_simp

text \<open>
  C7, amended. Whenever the window is at least two samples long, the segmenter returns
  window_size_samples as the float product of window length and sampling rate, truncated
  to an integer, and the stride as the float product of window_size_samples and 0.8,
  truncated; the stride is then at least 1.
\<close>

theorem window_arithmetic:
  assumes "2 \<le> py_int (fl (window_size_sec * fl (of_int fs)))"
  shows "\<exists>p. recalculate_windows window_size_sec fs total_samples = Inr p
           \<and> window_size_samples p = py_int (fl (window_size_sec * fl (of_int fs)))
           \<and> stride p = py_int (fl (fl (of_int (window_size_samples p)) * fl 0.8))
           \<and> 1 \<le> stride p
           \<and> num_windows p = max 1 ((total_samples - window_size_samples p) div stride p + 1)"
proof -
  let ?w = "py_int (fl (window_size_sec * fl (of_int fs)))"
  let ?st = "py_int (fl (fl (of_int ?w) * fl 0.8))"
  from assms have w2: "(2::real) \<le> of_int ?w" by linarith
  then have "of_int ?w * (1 - 1 / 2 ^ 53) \<le> fl (of_int ?w)" by (intro fl_lower) simp
  moreover have "(2::real) * (1 - 1 / 2 ^ 53) \<le> of_int ?w * (1 - 1 / 2 ^ 53)"
    using w2 by (intro mult_right_mono) simp_all
  ultimately have "(3 / 2 :: real) \<le> fl (of_int ?w)" by simp
  then have "3 / 2 * (3602879701896397 / 4503599627370496 :: real) \<le> fl (of_int ?w) * fl 0.8"
    unfolding fl_0_8 by (intro mult_right_mono) simp_all
  then have "1 \<le> fl (of_int ?w) * fl 0.8" by simp
  then have "1 \<le> fl (fl (of_int ?w) * fl 0.8)" by (rule fl_ge_one)
  then have st: "1 \<le> ?st" by (simp add: py_int_def le_floor_iff)
  then have "?st \<noteq> 0" by simp
  with st show ?thesis by (simp add: recalculate_windows_def Let_def)
qed

theorem window_arithmetic_witness:
  "recalculate_windows 5 100 1000 =
       Inr \<lparr> window_size_samples = 500, stride = 400, num_windows = 2 \<rparr>"
proof -
  have h: "2 \<le> py_int (fl (5 * fl (of_int 100)))" by code_simp
  have w: "py_int (fl (5 * fl (of_int 100))) = 500" by code_simp
  have st: "py_int (fl (fl (of_int 500) * fl 0.8)) = 400" by code_simp
  from window_arithmetic [OF h, of 1000] obtain p where
    r: "recalculate_windows 5 100 1000 = Inr p"
    and a: "window_size_samples p = py_int (fl (5 * fl (of_int 100)))"
    and b: "stride p = py_int (fl (fl (of_int (window_size_samples p)) * fl 0.8))"
    and c: "num_windows p = max 1 ((1000 - window_size_samples p) div stride p + 1)"
    by auto
  from a w have a': "window_size_samples p = 500" by simp
  from b a' st have b': "stride p = 400" by simp
  from c a' b' have c': "num_windows p = 2" by simp
  from a' b' c' have "p = \<lparr> window_size_samples = 500, stride = 400, num_windows = 2 \<rparr>"
    by (cases p) simp
  with r show ?thesis by simp
qed

subsection \<open>Bounds selection\<close>

lemma bounds_loop_spec:
  assumes "set chs \<subseteq> dom bs"
  shows "\<exists>r. bounds_loop bs chs m best = Inr r \<and>
           (if \<exists>c \<in> set chs. m < range_of (the (bs c))
            then (\<exists>c \<in> set chs. bs c = r) \<and> m < range_of (the r)
                 \<and> (\<forall>c \<in> set chs. range_of (the (bs c)) \<le> range_of (the r))
            else r = best)"
  using assms
proof (induction chs arbitrary: m best)
  case Nil
  then show ?case by simp
next
  case (Cons ch rest)
  from Cons.prems obtain y_min y_max where b: "bs ch = Some (y_min, y_max)" by fastforce
  from Cons.prems have sub: "set rest \<subseteq> dom bs" by simp
  let ?rg = "y_max - y_min"
  have rg: "range_of (the (bs ch)) = ?rg" by (simp add: b range_of_def)
  show ?case
  proof (cases "m < ?rg")
    case True
    from Cons.IH [OF sub, of ?rg "Some (y_min, y_max)"]
    obtain r where r: "bounds_loop bs rest ?rg (Some (y_min, y_max)) = Inr r"
      and sp: "if \<exists>c \<in> set rest. ?rg < range_of (the (bs c))
            then (\<exists>c \<in> set rest. bs c = r) \<and> ?rg < range_of (the r)
                 \<and> (\<forall>c \<in> set rest. range_of (the (bs c)) \<le> range_of (the r))
            else r = Some (y_min, y_max)" by blast
    have run: "bounds_loop bs (ch # rest) m best = Inr r"
      using True b r by simp
    have ex: "\<exists>c \<in> set (ch # rest). m < range_of (the (bs c))"
      using True rg by simp
    show ?thesis
    proof (cases "\<exists>c \<in> set rest. ?rg < range_of (the (bs c))")
      case t: True
      with sp have d1: "\<exists>c \<in> set rest. bs c = r" and d2: "?rg < range_of (the r)"
        and d3: "\<forall>c \<in> set rest. range_of (the (bs c)) \<le> range_of (the r)" by simp_all
      from d1 have e1: "\<exists>c \<in> set (ch # rest). bs c = r" by auto
      from d2 True have e2: "m < range_of (the r)" by simp
      from d2 d3 rg have e3: "\<forall>c \<in> set (ch # rest). range_of (the (bs c)) \<le> range_of (the r)"
        by simp
      from ex e1 e2 e3 show ?thesis unfolding run by simp
    next
      case f: False
      with sp have re: "r = Some (y_min, y_max)" by simp
      then have rr: "range_of (the r) = ?rg" by (simp add: range_of_def)
      have e1: "\<exists>c \<in> set (ch # rest). bs c = r" using re b by simp
      have e2: "m < range_of (the r)" using rr True by simp
      have e3: "\<forall>c \<in> set (ch # rest). range_of (the (bs c)) \<le> range_of (the r)"
        using f rg rr by (auto simp: not_less)
      from ex e1 e2 e3 show ?thesis unfolding run by simp
    qed
  next
    case False
    from Cons.IH [OF sub, of m best]
    obtain r where r: "bounds_loop bs rest m best = Inr r"
      and sp: "if \<exists>c \<in> set rest. m < range_of (the (bs c))
            then (\<exists>c \<in> set rest. bs c = r) \<and> m < range_of (the r)
                 \<and> (\<forall>c \<in> set rest. range_of (the (bs c)) \<le> range_of (the r))
            else r = best" by blast
    have run: "bounds_loop bs (ch # rest) m best = Inr r"
      using False b r by simp
    have le: "range_of (the (bs ch)) \<le> m" using False rg by simp
    show ?thesis
    proof (cases "\<exists>c \<in> set rest. m < range_of (the (bs c))")
      case t: True
      with sp have d1: "\<exists>c \<in> set rest. bs c = r" and d2: "m < range_of (the r)"
        and d3: "\<forall>c \<in> set rest. range_of (the (bs c)) \<le> range_of (the r)" by simp_all
      from t have ex: "\<exists>c \<in> set (ch # rest). m < range_of (the (bs c))" by auto
      from d1 have e1: "\<exists>c \<in> set (ch # rest). bs c = r" by auto
      from d2 d3 le have e3: "\<forall>c \<in> set (ch # rest). range_of (the (bs c)) \<le> range_of (the r)"
        by simp
      from ex e1 d2 e3 show ?thesis unfolding run by simp
    next
      case f: False
      with sp have re: "r = best" by simp
      from f le have nex: "\<not> (\<exists>c \<in> set (ch # rest). m < range_of (the (bs c)))"
        by (auto simp: not_less)
      from nex re show ?thesis unfolding run by simp
    qed
  qed
qed

text \<open>
  C9 as stated does not hold. With min/max bounds (0, 10) for channel 0 and (100, 105)
  for channel 1 the selection returns (0, 10), the pair of the largest range, which does
  not cover the bound of channel 1. With a single flat channel, bound (3, 3), no range
  exceeds the initial 0 and the selection returns no pair at all.
\<close>

theorem bounds_selection_counterexample:
  "get_minmax_bounds_for_channels
     \<lparr> channel_iqr_bounds = Map.empty,
       channel_minmax_bounds = [0 \<mapsto> (0, 10), 1 \<mapsto> (100, 105)] \<rparr> [0, 1] = Inr (Some (0, 10))
   \<and> \<not> covers (0, 10) (100, 105)
   \<and> get_iqr_bounds_for_channels
       \<lparr> channel_iqr_bounds = [0 \<mapsto> (3, 3)], channel_minmax_bounds = Map.empty \<rparr> [0] = Inr None"
  by (simp add: get_minmax_bounds_for_channels_def get_iqr_bounds_for_channels_def covers_def)

text \<open>
  C9, amended. For requested channel indices that all have precomputed bounds, at least
  one of them with a positive range, the selection function (in IQR mode and in min/max
  mode) returns the bound pair of a requested channel whose range is the largest among
  the requested channels. That the pair covers the other channels' bounds is not part of
  the statement.
\<close>

theorem bounds_selection:
  assumes "set channel_indices \<subseteq> dom (channel_iqr_bounds t)"
    and "set channel_indices \<subseteq> dom (channel_minmax_bounds t)"
  shows "((\<exists>c \<in> set channel_indices. 0 < range_of (the (channel_iqr_bounds t c))) \<longrightarrow>
            selects_widest (channel_iqr_bounds t) channel_indices
              (get_iqr_bounds_for_channels t channel_indices))
       \<and> ((\<exists>c \<in> set channel_indices. 0 < range_of (the (channel_minmax_bounds t c))) \<longrightarrow>
            selects_widest (channel_minmax_bounds t) channel_indices
              (get_minmax_bounds_for_channels t channel_indices))"
proof -
  have widest: "selects_widest bs channel_indices (bounds_loop bs channel_indices 0 None)"
    if sub: "set channel_indices \<subseteq> dom bs"
      and pos: "\<exists>c \<in> set channel_indices. 0 < range_of (the (bs c))" for bs
  proof -
    from bounds_loop_spec [OF sub, of 0 None] pos
    obtain r where run: "bounds_loop bs channel_indices 0 None = Inr r"
      and mem: "\<exists>c \<in> set channel_indices. bs c = r"
      and top: "\<forall>c \<in> set channel_indices. range_of (the (bs c)) \<le> range_of (the r)"
      by auto
    from mem sub obtain p where p: "r = Some p" by fastforce
    with run mem top show ?thesis unfolding selects_widest_def by auto
  qed
  have ne: "channel_indices \<noteq> []" if "\<exists>c \<in> set channel_indices. P c" for P
    using that by auto
  show ?thesis
    using widest [OF assms(1)] widest [OF assms(2)] ne
    unfolding get_iqr_bounds_for_channels_def get_minmax_bounds_for_channels_def
    by (simp (no_asm_simp))
qed

theorem bounds_selection_witness:
  "get_iqr_bounds_for_channels
     \<lparr> channel_iqr_bounds = [0 \<mapsto> (-2, 2), 1 \<mapsto> (-50, 60)],
       channel_minmax_bounds = [0 \<mapsto> (0, 10), 1 \<mapsto> (100, 105)] \<rparr> [0, 1] = Inr (Some (-50, 60))
   \<and> get_minmax_bounds_for_channels
     \<lparr> channel_iqr_bounds = [0 \<mapsto> (-2, 2), 1 \<mapsto> (-50, 60)],
       channel_minmax_bounds = [0 \<mapsto> (0, 10), 1 \<mapsto> (100, 105)] \<rparr> [0, 1] = Inr (Some (0, 10))
   \<and> selects_widest [0 \<mapsto> (-2, 2), 1 \<mapsto> (-50, 60)] [0, 1] (Inr (Some (-50, 60)))
   \<and> selects_widest [0 \<mapsto> (0, 10), 1 \<mapsto> (100, 105)] [0, 1] (Inr (Some (0, 10)))"
proof -
  let ?t = "\<lparr> channel_iqr_bounds = [0 \<mapsto> (-2, 2), 1 \<mapsto> (-50, 60 :: real)],
              channel_minmax_bounds = [0 \<mapsto> (0, 10), 1 \<mapsto> (100, 105 :: real)] \<rparr>"
  have h1: "set [0, 1] \<subseteq> dom (channel_iqr_bounds ?t)" by simp
  have h2: "set [0, 1] \<subseteq> dom (channel_minmax_bounds ?t)" by simp
  have p1: "\<exists>c \<in> set [0, 1 :: nat]. 0 < range_of (the (channel_iqr_bounds ?t c))"
    by (simp add: range_of_def)
  have p2: "\<exists>c \<in> set [0, 1 :: nat]. 0 < range_of (the (channel_minmax_bounds ?t c))"
    by (simp add: range_of_def)
  have r1: "get_iqr_bounds_for_channels ?t [0, 1] = Inr (Some (-50, 60))"
    by (simp add: get_iqr_bounds_for_channels_def)
  have r2: "get_minmax_bounds_for_channels ?t [0, 1] = Inr (Some (0, 10))"
    by (simp add: get_minmax_bounds_for_channels_def)
  from bounds_selection [OF h1 h2] p1 p2
  have "selects_widest (channel_iqr_bounds ?t) [0, 1] (get_iqr_bounds_for_channels ?t [0, 1])
      \<and> selects_widest (channel_minmax_bounds ?t) [0, 1]
          (get_minmax_bounds_for_channels ?t [0, 1])"
    by blast
  then have "selects_widest [0 \<mapsto> (-2, 2), 1 \<mapsto> (-50, 60)] [0, 1] (Inr (Some (-50, 60)))
      \<and> selects_widest [0 \<mapsto> (0, 10), 1 \<mapsto> (100, 105)] [0, 1] (Inr (Some (0, 10)))"
    unfolding r1 r2 by simp
  with r1 r2 show ?thesis by (intro conjI) blast+
qed

subsection \<open>Stateful filter pipeline\<close>

lemma df2t_step_length:
  "length b = Suc n \<Longrightarrow> length a = Suc n \<Longrightarrow> length z = n \<Longrightarrow>
   length (snd (df2t_step b a z x)) = n"
  by (cases z) (auto simp: df2t_step_def Let_def)

lemma lfilter_run_length:
  "length b = Suc n \<Longrightarrow> length a = Suc n \<Longrightarrow> length z = n \<Longrightarrow>
   length (fst (lfilter_run b a z xs)) = length xs \<and> length (snd (lfilter_run b a z xs)) = n"
proof (induction xs arbitrary: z)
  case Nil
  then show ?case by simp
next
  case (Cons x xs)
  obtain y z' where st: "df2t_step b a z x = (y, z')" by (cases "df2t_step b a z x")
  with df2t_step_length [OF Cons.prems, of x] have "length z' = n" by simp
  from Cons.IH [OF Cons.prems(1,2) this] st show ?case
    by (simp add: split_beta)
qed

lemma lfilter_run_append:
  "lfilter_run b a z (xs @ ys) =
     (case lfilter_run b a z xs of (o1, z1) \<Rightarrow>
        (case lfilter_run b a z1 ys of (o2, z2) \<Rightarrow> (o1 @ o2, z2)))"
  by (induction xs arbitrary: z) (auto simp: split_beta Let_def)

lemma lfilter_eq:
  "lfilter b a x z =
     (if lfilter_ok b a (length z)
      then Inr (lfilter_run (map (\<lambda>v. v / hd a) (pad_to (max (length a) (length b)) b))
                            (map (\<lambda>v. v / hd a) (pad_to (max (length a) (length b)) a)) z x)
      else Inl ValueError)"
  by (auto simp: lfilter_def lfilter_ok_def Let_def)

lemma pad_to_length: "length xs \<le> k \<Longrightarrow> length (pad_to k xs) = k"
  by (simp add: pad_to_def)

lemma lfilter_lengths:
  assumes "lfilter b a x z = Inr (y, zf)"
  shows "length y = length x \<and> length zf = length z"
proof -
  let ?k = "max (length a) (length b)"
  from assms have ok: "lfilter_ok b a (length z)"
    by (auto simp: lfilter_eq split: if_splits)
  then obtain n where k: "?k = Suc n" and n: "length z = n"
    by (cases ?k) (auto simp: lfilter_ok_def)
  have lb: "length (map (\<lambda>v. v / hd a) (pad_to ?k b)) = Suc n"
    and la: "length (map (\<lambda>v. v / hd a) (pad_to ?k a)) = Suc n"
    using k by (simp_all add: pad_to_length)
  from lfilter_run_length [OF lb la n, of x] assms ok n show ?thesis
    by (auto simp: lfilter_eq)
qed

lemma lfilter_append:
  "lfilter b a (x @ y) z =
     (case lfilter b a x z of
        Inl e \<Rightarrow> Inl e
      | Inr (o1, z1) \<Rightarrow>
          (case lfilter b a y z1 of
             Inl e \<Rightarrow> Inl e
           | Inr (o2, z2) \<Rightarrow> Inr (o1 @ o2, z2)))"
proof (cases "lfilter b a x z")
  case (Inl e)
  then show ?thesis by (auto simp: lfilter_eq split: if_splits)
next
  case (Inr p)
  obtain o1 z1 where p: "p = (o1, z1)" by (cases p)
  from lfilter_lengths Inr p have len: "length z1 = length z" by blast
  from Inr have ok: "lfilter_ok b a (length z)" by (auto simp: lfilter_eq split: if_splits)
  show ?thesis
    using Inr p ok len by (simp add: lfilter_eq lfilter_run_append split_beta)
qed

lemma init_zi_local:
  "init_zi zi template i d =
     (case local_init (zi i) template d of
        Inl e \<Rightarrow> Inl e
      | Inr z \<Rightarrow> Inr (zi(i \<mapsto> z)))"
  by (auto simp: init_zi_def local_init_def fun_upd_idem split: list.splits option.splits)

lemma filter_try_local:
  "filter_try s i d =
     (case local_try s (get_zi s i) d of (st, d', e) \<Rightarrow> (put_zi s i st, d', e))"
  unfolding filter_try_def local_try_def get_zi_def put_zi_def init_zi_local Let_def
  by (auto split: sum.splits prod.splits simp: fun_upd_idem)

lemma lfilter_fail_indep:
  "lfilter b a x z = Inl e \<Longrightarrow> length z' = length z \<Longrightarrow> lfilter b a x' z' = Inl e"
  by (auto simp: lfilter_eq split: if_splits)

lemma lfilter_nil: "lfilter b a [] z = Inr p \<Longrightarrow> p = ([], z)"
  by (auto simp: lfilter_eq split: if_splits)

lemma local_try_nil:
  "fst (local_try s st []) = st \<and> fst (snd (local_try s st [])) = []"
proof -
  obtain bz nz where st: "st = (bz, nz)" by (cases st)
  show ?thesis
    unfolding local_try_def local_init_def st
    by (auto split: option.splits sum.splits dest!: lfilter_nil)
qed

lemma local_try_append_cons:
  assumes x: "x = x0 # xs"
  shows "(case local_try s st (x @ y) of (st', d, e) \<Rightarrow> (st', d)) =
         (case local_try s st x of (st1, d1, e1) \<Rightarrow>
            (case local_try s st1 y of (st2, d2, e2) \<Rightarrow> (st2, d1 @ d2)))"
proof -
  obtain bz nz where st: "st = (bz, nz)" by (cases st)
  define z1 where "z1 = (case bz of Some v \<Rightarrow> v | None \<Rightarrow> map (\<lambda>t. t * x0) (bandpass_zi_template s))"
  define z2 where "z2 = (case nz of Some v \<Rightarrow> v | None \<Rightarrow> map (\<lambda>t. t * x0) (notch_zi_template s))"
  have i1: "local_init bz (bandpass_zi_template s) x = Inr z1"
    "local_init bz (bandpass_zi_template s) (x @ y) = Inr z1"
    by (auto simp: local_init_def x z1_def split: option.splits)
  have i2: "local_init nz (notch_zi_template s) x = Inr z2"
    "local_init nz (notch_zi_template s) (x @ y) = Inr z2"
    by (auto simp: local_init_def x z2_def split: option.splits)
  have i3: "local_init (Some v) t d = Inr v" for v t d
    by (simp add: local_init_def)
  show ?thesis
  proof (cases "lfilter (bandpass_b s) (bandpass_a s) x z1")
    case (Inl e)
    from lfilter_fail_indep [OF Inl, of z1 "x @ y"] lfilter_fail_indep [OF Inl, of z1 y] Inl
    show ?thesis
      by (simp add: local_try_def st i1 i2 i3)
  next
    case (Inr p)
    obtain y1 zf1 where p: "p = (y1, zf1)" by (cases p)
    from lfilter_lengths Inr p have l1: "length zf1 = length z1" by blast
    show ?thesis
    proof (cases "lfilter (bandpass_b s) (bandpass_a s) y zf1")
      case bad: (Inl e)
      from lfilter_fail_indep [OF bad, of z1 x] l1 Inr show ?thesis by simp
    next
      case ok: (Inr q)
      obtain y2 zf2 where q: "q = (y2, zf2)" by (cases q)
      have whole: "lfilter (bandpass_b s) (bandpass_a s) (x @ y) z1 = Inr (y1 @ y2, zf2)"
        by (simp add: lfilter_append Inr p ok q)
      show ?thesis
      proof (cases "lfilter (notch_b s) (notch_a s) y1 z2")
        case n1: (Inl e)
        from lfilter_fail_indep [OF n1, of z2 "y1 @ y2"] lfilter_fail_indep [OF n1, of z2 y2] n1
        show ?thesis
          by (simp add: local_try_def st i1 i2 i3 Inr p ok q whole)
      next
        case n1: (Inr r)
        obtain w1 nf1 where r: "r = (w1, nf1)" by (cases r)
        from lfilter_lengths n1 r have l2: "length nf1 = length z2" by blast
        show ?thesis
        proof (cases "lfilter (notch_b s) (notch_a s) y2 nf1")
          case bad: (Inl e)
          from lfilter_fail_indep [OF bad, of z2 y1] l2 n1 show ?thesis by simp
        next
          case n2: (Inr t)
          obtain w2 nf2 where t: "t = (w2, nf2)" by (cases t)
          have nwhole: "lfilter (notch_b s) (notch_a s) (y1 @ y2) z2 = Inr (w1 @ w2, nf2)"
            by (simp add: lfilter_append n1 r n2 t)
          show ?thesis
            by (simp add: local_try_def st i1 i2 i3 Inr p ok q whole n1 r n2 t nwhole)
        qed
      qed
    qed
  qed
qed

lemma local_channel_append:
  "local_channel s st (x @ y) =
     (case local_channel s st x of (st1, o1) \<Rightarrow>
        (case local_channel s st1 y of (st2, o2) \<Rightarrow> (st2, o1 @ o2)))"
proof (cases "scipy_available s \<and> filter_coeffs_valid s")
  case False
  then show ?thesis by (auto simp: local_channel_def scale_channel_def)
next
  case True
  show ?thesis
  proof (cases x)
    case Nil
    obtain st1 d1 e1 where r: "local_try s st [] = (st1, d1, e1)"
      by (cases "local_try s st []") auto
    with local_try_nil [of s st] have "st1 = st" "d1 = []" by simp_all
    with r True Nil show ?thesis
      by (simp add: local_channel_def scale_channel_def split: prod.splits)
  next
    case (Cons x0 xs)
    obtain st1 d1 e1 where a: "local_try s st x = (st1, d1, e1)"
      by (cases "local_try s st x") auto
    obtain st2 d2 e2 where b: "local_try s st1 y = (st2, d2, e2)"
      by (cases "local_try s st1 y") auto
    obtain st3 d3 e3 where c: "local_try s st (x @ y) = (st3, d3, e3)"
      by (cases "local_try s st (x @ y)") auto
    from local_try_append_cons [OF Cons, of s st y] a b c
    have "st3 = st2" "d3 = d1 @ d2" by simp_all
    with a b c True show ?thesis
      by (simp add: local_channel_def scale_channel_def)
  qed
qed

lemma local_try_length:
  "length (fst (snd (local_try s st d))) = length d"
  unfolding local_try_def
  by (auto split: sum.splits dest!: lfilter_lengths)


lemma local_channel_cfg:
  assumes "scipy_available t = scipy_available s"
    and "filter_coeffs_valid t = filter_coeffs_valid s"
    and "magnitude_scale t = magnitude_scale s"
    and "bandpass_b t = bandpass_b s" and "bandpass_a t = bandpass_a s"
    and "notch_b t = notch_b s" and "notch_a t = notch_a s"
    and "bandpass_zi_template t = bandpass_zi_template s"
    and "notch_zi_template t = notch_zi_template s"
  shows "local_channel t = local_channel s"
  unfolding local_channel_def local_try_def scale_channel_def scale_factor_def assms
  by (rule refl)

lemma local_channel_put_zi [simp]: "local_channel (put_zi s i st) = local_channel s"
  by (rule local_channel_cfg) (simp_all add: put_zi_def)

lemma local_channel_with_zi [simp]: "local_channel (with_zi s f) = local_channel s"
  by (rule local_channel_cfg) (simp_all add: with_zi_def)

lemma get_zi_put_zi: "get_zi (put_zi s i st) j = (if j = i then st else get_zi s j)"
  by (simp add: get_zi_def put_zi_def)

lemma channel_step:
  "(case filter_channel s i row of (s1, d) \<Rightarrow> (s1, assign_row row (scale_channel s1 d))) =
   (case local_channel s (get_zi s i) row of (st, r) \<Rightarrow> (put_zi s i st, Inr r))"
proof (cases "scipy_available s \<and> filter_coeffs_valid s")
  case False
  have "put_zi s i (get_zi s i) = s" by (simp add: put_zi_def get_zi_def)
  with False show ?thesis
    by (auto simp: filter_channel_def local_channel_def assign_row_def scale_channel_def)
next
  case True
  obtain st d e where t: "local_try s (get_zi s i) row = (st, d, e)"
    by (cases "local_try s (get_zi s i) row") auto
  with local_try_length [of s "get_zi s i" row] have len: "length d = length row" by simp
  have sc: "scale_channel (put_zi s i st) d = scale_channel s d"
    by (simp add: scale_channel_def scale_factor_def put_zi_def)
  from True t len sc show ?thesis
    by (simp add: filter_channel_def filter_try_local local_channel_def assign_row_def
        scale_channel_def)
qed

lemma with_zi_put_zi:
  "with_zi (put_zi s i st) f = with_zi s f"
  by (simp add: with_zi_def put_zi_def)

lemma process_channels_closed:
  "process_channels s i rows = (with_zi s (zi_after s i rows), Inr (out_rows s i rows))"
proof (induction rows arbitrary: s i)
  case Nil
  have "with_zi s (get_zi s) = s" by (simp add: with_zi_def get_zi_def)
  moreover have "zi_after s i [] = get_zi s" by (rule ext) (auto simp: zi_after_def)
  ultimately show ?case by (simp add: out_rows_def)
next
  case (Cons row rows)
  obtain st r where lc: "local_channel s (get_zi s i) row = (st, r)"
    by (cases "local_channel s (get_zi s i) row")
  let ?s1 = "put_zi s i st"
  obtain s1 d where fc: "filter_channel s i row = (s1, d)" by (cases "filter_channel s i row")
  from channel_step [where s = s and i = i and row = row] fc lc
  have s1: "s1 = ?s1" and asg: "assign_row row (scale_channel s1 d) = Inr r" by auto
  have zi: "zi_after ?s1 (Suc i) rows = zi_after s i (row # rows)"
  proof
    fix j
    show "zi_after ?s1 (Suc i) rows j = zi_after s i (row # rows) j"
      using lc by (auto simp: zi_after_def get_zi_put_zi Suc_diff_le)
  qed
  have out: "r # out_rows ?s1 (Suc i) rows = out_rows s i (row # rows)"
  proof -
    have "out_rows s i (row # rows) =
        map (\<lambda>k. snd (local_channel s (get_zi s (i + k)) ((row # rows) ! k)))
          (0 # map Suc [0..<length rows])"
      unfolding out_rows_def by (simp add: upt_conv_Cons map_Suc_upt del: upt_Suc)
    also have "\<dots> = r # out_rows ?s1 (Suc i) rows"
      using lc by (simp add: out_rows_def get_zi_put_zi comp_def)
    finally show ?thesis by simp
  qed
  show ?case
    using fc asg s1 Cons.IH [of ?s1 "Suc i"] zi out
    by (simp add: with_zi_put_zi)
qed

lemma get_zi_with_zi [simp]: "get_zi (with_zi s f) j = f j"
  by (simp add: get_zi_def with_zi_def)

lemma with_zi_with_zi [simp]: "with_zi (with_zi s g) f = with_zi s f"
  by (simp add: with_zi_def)

lemma process_signal_closed:
  "process_signal s data = (with_zi s (zi_after s 0 data), Inr (out_rows s 0 data))"
  by (simp add: process_signal_def process_channels_closed)

lemma out_rows_nth:
  "k < length rows \<Longrightarrow> out_rows s 0 rows ! k = snd (local_channel s (get_zi s k) (rows ! k))"
  by (simp add: out_rows_def)

lemma length_out_rows [simp]: "length (out_rows s i rows) = length rows"
  by (simp add: out_rows_def)


lemma local_init_length:
  assumes "case z of None \<Rightarrow> True | Some v \<Rightarrow> length v = length template"
    and "local_init z template d = Inr v"
  shows "length v = length template"
  using assms by (auto simp: local_init_def split: option.splits list.splits)


lemma notch_consistent_iff:
  "notch_consistent s i \<longleftrightarrow>
     lfilter_ok (notch_b s) (notch_a s) (length (notch_zi_template s))
     \<and> (case snd (get_zi s i) of None \<Rightarrow> True
         | Some v \<Rightarrow> length v = length (notch_zi_template s))"
  by (auto simp: notch_consistent_def lfilter_ok_def get_zi_def)



lemma local_try_notch_length:
  assumes nz: "case snd st of None \<Rightarrow> True | Some v \<Rightarrow> length v = length (notch_zi_template s)"
  shows "case snd (fst (local_try s st d)) of None \<Rightarrow> True
         | Some v \<Rightarrow> length v = length (notch_zi_template s)"
proof (cases "local_init (fst st) (bandpass_zi_template s) d")
  case (Inl e)
  with nz show ?thesis by (simp add: local_try_def)
next
  case z1: (Inr z1)
  show ?thesis
  proof (cases "local_init (snd st) (notch_zi_template s) d")
    case (Inl e)
    with z1 nz show ?thesis by (simp add: local_try_def)
  next
    case z2: (Inr z2)
    from local_init_length [OF nz z2] have l2: "length z2 = length (notch_zi_template s)" .
    show ?thesis
    proof (cases "lfilter (bandpass_b s) (bandpass_a s) d z1")
      case (Inl e)
      with z1 z2 l2 show ?thesis by (simp add: local_try_def)
    next
      case (Inr p)
      obtain y zf where p: "p = (y, zf)" by (cases p)
      show ?thesis
      proof (cases "lfilter (notch_b s) (notch_a s) y z2")
        case (Inl e)
        with z1 z2 l2 Inr p show ?thesis by (simp add: local_try_def)
      next
        case n: (Inr q)
        obtain y2 zf2 where q: "q = (y2, zf2)" by (cases q)
        from lfilter_lengths [OF n [unfolded q]] l2 have "length zf2 = length (notch_zi_template s)" by simp
        with z1 z2 Inr p n q show ?thesis by (simp add: local_try_def)
      qed
    qed
  qed
qed

lemma process_signal_notch_consistent:
  assumes "notch_consistent s j"
  shows "notch_consistent (fst (process_signal s data)) j"
proof -
  let ?s' = "with_zi s (zi_after s 0 data)"
  from assms have nz: "case snd (get_zi s j) of None \<Rightarrow> True
      | Some v \<Rightarrow> length v = length (notch_zi_template s)"
    and ok: "lfilter_ok (notch_b s) (notch_a s) (length (notch_zi_template s))"
    by (simp_all add: notch_consistent_iff)
  have cfg: "notch_b ?s' = notch_b s" "notch_a ?s' = notch_a s"
    "notch_zi_template ?s' = notch_zi_template s"
    by (simp_all add: with_zi_def)
  have loc: "snd (fst (local_channel s (get_zi s j) (data ! j))) = snd (get_zi s j)
      \<or> snd (fst (local_channel s (get_zi s j) (data ! j)))
          = snd (fst (local_try s (get_zi s j) (data ! j)))"
    by (cases "local_try s (get_zi s j) (data ! j)") (simp add: local_channel_def)
  have "snd (zi_after s 0 data j) = snd (get_zi s j)
      \<or> snd (zi_after s 0 data j) = snd (fst (local_try s (get_zi s j) (data ! j)))"
    using loc by (simp add: zi_after_def)
  with nz local_try_notch_length [OF nz, of "data ! j"]
  have "case snd (zi_after s 0 data j) of None \<Rightarrow> True
      | Some v \<Rightarrow> length v = length (notch_zi_template s)"
    by metis
  with ok show ?thesis
    unfolding process_signal_closed notch_consistent_iff fst_conv get_zi_with_zi cfg
    by simp
qed

text \<open>
  C1. Filtering a signal as one chunk, and filtering it as two consecutive chunks with
  the state that \<^verbatim>\<open>process_signal\<close> left after the first, give the same output, channel
  by channel and sample by sample, and leave the same state: each filter application
  returns its final state into the dictionary and the next call starts from it. The
  equality is exact, on the whole signal, in the arithmetic of this theory; it holds for
  every state, also when a stage fails, since a stage that fails on the whole signal
  fails in the same way on both chunks.
\<close>

theorem filter_continuity:
  assumes len: "length data1 = length data2"
  shows "\<exists>s1 out1 s2 out2.
           process_signal s data1 = (s1, Inr out1)
         \<and> process_signal s1 data2 = (s2, Inr out2)
         \<and> process_signal s (map2 (@) data1 data2) = (s2, Inr (map2 (@) out1 out2))"
proof -
  let ?s1 = "with_zi s (zi_after s 0 data1)"
  let ?w = "map2 (@) data1 data2"
  have step: "local_channel s (get_zi s k) (data1 ! k @ data2 ! k) =
      (fst (local_channel s (zi_after s 0 data1 k) (data2 ! k)),
       snd (local_channel s (get_zi s k) (data1 ! k))
         @ snd (local_channel s (zi_after s 0 data1 k) (data2 ! k)))"
    if k: "k < length data1" for k
    using k by (simp add: local_channel_append [of s "get_zi s k"] zi_after_def split_beta)
  have zi: "zi_after ?s1 0 data2 = zi_after s 0 ?w"
  proof
    fix j
    show "zi_after ?s1 0 data2 j = zi_after s 0 ?w j"
      using len step [of j] by (simp add: zi_after_def)
  qed
  have out: "out_rows s 0 ?w = map2 (@) (out_rows s 0 data1) (out_rows ?s1 0 data2)"
  proof (rule nth_equalityI)
    show "length (out_rows s 0 ?w) = length (map2 (@) (out_rows s 0 data1) (out_rows ?s1 0 data2))"
      using len by simp
  next
    fix k
    assume "k < length (out_rows s 0 ?w)"
    then have k: "k < length data1" "k < length data2" using len by simp_all
    then show "out_rows s 0 ?w ! k = map2 (@) (out_rows s 0 data1) (out_rows ?s1 0 data2) ! k"
      using step [of k] by (simp add: out_rows_nth)
  qed
  show ?thesis
    unfolding process_signal_closed using zi out by simp
qed

theorem filter_continuity_witness:
  "snd (process_signal demo_engine [[Num 1], [Num 2, Num 2]]) = Inr [[Num 7], [Num 14, Num 3]]
   \<and> snd (process_signal (fst (process_signal demo_engine [[Num 1], [Num 2, Num 2]]))
            [[Num 0, Num 4], [Num 2]]) = Inr [[Num (1 / 2), Num (33 / 4)], [Num (27 / 2)]]
   \<and> snd (process_signal demo_engine [[Num 1, Num 0, Num 4], [Num 2, Num 2, Num 2]])
       = Inr [[Num 7, Num (1 / 2), Num (33 / 4)], [Num 14, Num 3, Num (27 / 2)]]"
proof -
  let ?d1 = "[[Num 1], [Num 2, Num 2]]" and ?d2 = "[[Num 0, Num 4], [Num 2]]"
  have len: "length ?d1 = length ?d2" by simp
  from filter_continuity [OF len, of demo_engine]
  obtain s1 out1 s2 out2 where
    r1: "process_signal demo_engine ?d1 = (s1, Inr out1)"
    and r2: "process_signal s1 ?d2 = (s2, Inr out2)"
    and r3: "process_signal demo_engine (map2 (@) ?d1 ?d2) = (s2, Inr (map2 (@) out1 out2))"
    by blast
  have e1: "snd (process_signal demo_engine ?d1) = Inr [[Num 7], [Num 14, Num 3]]"
    by code_simp
  have e2: "snd (process_signal (fst (process_signal demo_engine ?d1)) ?d2)
      = Inr [[Num (1 / 2), Num (33 / 4)], [Num (27 / 2)]]"
    by code_simp
  from r1 e1 have o1: "out1 = [[Num 7], [Num 14, Num 3]]" and s1: "fst (process_signal demo_engine ?d1) = s1"
    by simp_all
  from r2 e2 s1 have o2: "out2 = [[Num (1 / 2), Num (33 / 4)], [Num (27 / 2)]]" by simp
  from r3 o1 o2 have "snd (process_signal demo_engine [[Num 1, Num 0, Num 4], [Num 2, Num 2, Num 2]])
       = Inr [[Num 7, Num (1 / 2), Num (33 / 4)], [Num 14, Num 3, Num (27 / 2)]]"
    by simp
  with e1 e2 show ?thesis by blast
qed




subsection \<open>Live session\<close>

text \<open>
  C4 as stated does not hold: stopping a live session leaves every transient cache as
  it is. With the session of \<open>stopped_demo\<close> the stop clears the activity flag, and the
  filter states of channel 0, the spectral and band-power smoothing caches, the axis
  ceiling and the buffer contents are all still there afterwards.
\<close>

theorem session_stop_counterexample:
  "streaming_active stopped_demo
   \<and> \<not> streaming_active (toggle_streaming_visualization stopped_demo)
   \<and> bandpass_zi (toggle_streaming_visualization stopped_demo) 0 = Some [Num 5]
   \<and> notch_zi (toggle_streaming_visualization stopped_demo) 0 = Some [Num 1, Num 2]
   \<and> smoothed_fft (toggle_streaming_visualization stopped_demo) 0 = Some [1, 2]
   \<and> smoothed_band_power (toggle_streaming_visualization stopped_demo) ''Alpha'' = Some 3
   \<and> band_power_y_max (toggle_streaming_visualization stopped_demo) = 4
   \<and> stream_buffer (toggle_streaming_visualization stopped_demo)
       = Some [[Num 1, Num 2, Num 3, Num 4], [Num 5, Num 6, Num 7, Num 8]]"
  by (simp add: toggle_streaming_visualization_def stopped_demo_def demo_engine_def)

text \<open>
  C4, amended. Stopping a live session clears the activity flag and leaves the filter
  states, the smoothing caches, the axis ceiling and the buffer as they are; the start
  of the next session clears the filter states and the smoothing caches, resets the
  ceiling to 0 and fills the buffer with the sentinel, so that nothing of the stopped
  session is left when the next one begins to process data.
\<close>

theorem session_stop_start:
  assumes "streaming_active s"
  shows "\<not> streaming_active (toggle_streaming_visualization s)
       \<and> bandpass_zi (toggle_streaming_visualization s) = bandpass_zi s
       \<and> notch_zi (toggle_streaming_visualization s) = notch_zi s
       \<and> smoothed_fft (toggle_streaming_visualization s) = smoothed_fft s
       \<and> smoothed_band_power (toggle_streaming_visualization s) = smoothed_band_power s
       \<and> band_power_y_max (toggle_streaming_visualization s) = band_power_y_max s
       \<and> stream_buffer (toggle_streaming_visualization s) = stream_buffer s
       \<and> streaming_active (toggle_streaming_visualization (toggle_streaming_visualization s))
       \<and> bandpass_zi (toggle_streaming_visualization (toggle_streaming_visualization s)) = Map.empty
       \<and> notch_zi (toggle_streaming_visualization (toggle_streaming_visualization s)) = Map.empty
       \<and> smoothed_fft (toggle_streaming_visualization (toggle_streaming_visualization s)) = Map.empty
       \<and> smoothed_band_power (toggle_streaming_visualization (toggle_streaming_visualization s))
           = Map.empty
       \<and> band_power_y_max (toggle_streaming_visualization (toggle_streaming_visualization s)) = 0
       \<and> stream_buffer (toggle_streaming_visualization (toggle_streaming_visualization s))
           = map_option nan_fill (stream_buffer s)"
  using assms by (simp add: toggle_streaming_visualization_def)

theorem session_stop_start_witness:
  "bandpass_zi (toggle_streaming_visualization stopped_demo) 0 = Some [Num 5]
   \<and> bandpass_zi (toggle_streaming_visualization (toggle_streaming_visualization stopped_demo)) 0
       = None
   \<and> stream_buffer (toggle_streaming_visualization (toggle_streaming_visualization stopped_demo))
       = Some [[NaN, NaN, NaN, NaN], [NaN, NaN, NaN, NaN]]"
proof -
  have h: "streaming_active stopped_demo" by (simp add: stopped_demo_def)
  have b: "bandpass_zi stopped_demo 0 = Some [Num 5]"
    "stream_buffer stopped_demo = Some [[Num 1, Num 2, Num 3, Num 4], [Num 5, Num 6, Num 7, Num 8]]"
    by (simp_all add: stopped_demo_def)
  from session_stop_start [OF h] b show ?thesis
    by (simp add: nan_fill_def)
qed

lemma slice_from_neg_pos: "0 < k \<Longrightarrow> slice_from_neg k xs = drop (length xs - k) xs"
  by (simp add: slice_from_neg_def)

lemma shape1_rect: "rectangular k n m \<Longrightarrow> 0 < k \<Longrightarrow> shape1 m = n"
  by (cases m) (auto simp: rectangular_def shape1_def)




text \<open>
  One call of \<^verbatim>\<open>update_stream_data\<close> in a running session, with a chunk that is not
  empty: the processed chunk goes through the warmup block, and what that lets pass
  goes through the rolling-buffer block.
\<close>

lemma update_stream_data_step:
  assumes "board_present s" and "streaming_active s" and "shape1 data \<noteq> 0"
    and buf: "stream_buffer s = Some buf"
  shows "\<exists>s1 processed. process_signal s data = (s1, Inr processed) \<and>
           (case warmup_discard (stream_warmup_remaining s) processed of
              (r, None) \<Rightarrow>
                stream_warmup_remaining (update_stream_data s data) = r
                \<and> stream_buffer (update_stream_data s data) = Some buf
            | (r, Some kept) \<Rightarrow>
                stream_warmup_remaining (update_stream_data s data) = r
                \<and> stream_buffer (update_stream_data s data) = Some (fst (roll_buffer buf kept)))"
proof -
  let ?s1 = "with_zi s (zi_after s 0 data)" and ?p = "out_rows s 0 data"
  have run: "process_signal s data = (?s1, Inr ?p)" by (rule process_signal_closed)
  have keep: "stream_warmup_remaining ?s1 = stream_warmup_remaining s"
    "stream_buffer ?s1 = Some buf"
    using buf by (simp_all add: with_zi_def)
  obtain r res where w: "warmup_discard (stream_warmup_remaining s) ?p = (r, res)"
    by (cases "warmup_discard (stream_warmup_remaining s) ?p")
  have "case (r, res) of
      (r, None) \<Rightarrow>
        stream_warmup_remaining (update_stream_data s data) = r
        \<and> stream_buffer (update_stream_data s data) = Some buf
    | (r, Some kept) \<Rightarrow>
        stream_warmup_remaining (update_stream_data s data) = r
        \<and> stream_buffer (update_stream_data s data) = Some (fst (roll_buffer buf kept))"
    using assms(1-3) keep w
    by (cases res) (simp_all add: update_stream_data_def run Let_def)
  with run w show ?thesis by simp
qed



subsection \<open>Streaming ring buffer\<close>

lemma broadcast_rows_same: "length m = k \<Longrightarrow> broadcast_rows k m = Inr m"
  by (simp add: broadcast_rows_def)

lemma resize_stream_buffer_capacity:
  assumes buf: "stream_buffer s = Some old_buf" and rect: "rectangular (num_channels s) c old_buf"
    and c: "0 < c" and k: "0 < num_channels s"
  shows "\<exists>s' new_buf C. resize_stream_buffer s new_window_sec = Inr s'
           \<and> stream_buffer s' = Some new_buf \<and> rectangular (num_channels s') C new_buf
           \<and> 10 \<le> C
           \<and> C = nat (max 10 (py_int (fl (fl (of_int (sampling_rate s)) * new_window_sec))))"
proof -
  let ?C = "nat (max 10 (py_int (fl (fl (of_int (sampling_rate s)) * new_window_sec))))"
  have C: "nat (if py_int (fl (fl (of_int (sampling_rate s)) * new_window_sec)) < 10 then 10
                else py_int (fl (fl (of_int (sampling_rate s)) * new_window_sec))) = ?C"
    by (simp add: max_def)
  have sh: "shape1 old_buf = c" by (rule shape1_rect [OF rect k])
  have cl: "0 < min c ?C" using c by simp
  have len: "length (map (slice_from_neg (min c ?C)) old_buf) = num_channels s"
    using rect by (simp add: rectangular_def)
  have rows: "rectangular (num_channels s) ?C
      (map (\<lambda>r. replicate (?C - min c ?C) NaN @ r) (map (slice_from_neg (min c ?C)) old_buf))"
    using rect cl by (auto simp: rectangular_def list_all_iff slice_from_neg_pos)
  show ?thesis
    using cl rows
    by (simp add: resize_stream_buffer_def buf C sh Let_def broadcast_rows_same [OF len])
qed

text \<open>
  C3. For a buffer of capacity \<open>c \<ge> 1\<close> and a chunk of \<open>n\<close> samples per channel: if
  \<open>n \<ge> c\<close> the buffer afterwards is the trailing \<open>c\<close> samples of the chunk, otherwise
  its contents are shifted left by \<open>n\<close> and the chunk occupies the trailing slots; the
  capacity stays \<open>c\<close>. A chunk of exactly \<open>c\<close> samples becomes the buffer, sample for
  sample, and the buffer then holds no sentinel if the chunk holds none.
  (\<^verbatim>\<open>resize_stream_buffer\<close> makes the capacity at least 10, lemma
  \<open>resize_stream_buffer_capacity\<close>; at capacity 0 the slice \<^verbatim>\<open>[:, -0:]\<close> would be the
  whole chunk.)
\<close>

theorem ring_buffer_append:
  assumes rb: "rectangular k c buf" and rc: "rectangular k n chunk" and c: "0 < c"
  shows "roll_buffer buf chunk =
           (if c \<le> n then map (drop (n - c)) chunk
            else map2 (\<lambda>b r. drop n b @ r) buf chunk, None)
       \<and> rectangular k c (fst (roll_buffer buf chunk))
       \<and> (n = c \<longrightarrow> fst (roll_buffer buf chunk) = chunk)
       \<and> (n = c \<and> no_sentinel chunk \<longrightarrow> no_sentinel (fst (roll_buffer buf chunk)))"
proof -
  from rb rc have lb: "length buf = k" and lc: "length chunk = k"
    and rowb: "\<And>j. j < k \<Longrightarrow> length (buf ! j) = c"
    and rowc: "\<And>j. j < k \<Longrightarrow> length (chunk ! j) = n"
    by (auto simp: rectangular_def list_all_length)
  let ?res = "if c \<le> n then map (drop (n - c)) chunk else map2 (\<lambda>b r. drop n b @ r) buf chunk"
  have eq: "roll_buffer buf chunk = (?res, None)"
  proof (cases "k = 0")
    case True
    with lb lc show ?thesis by (simp add: roll_buffer_def shape1_def)
  next
    case False
    then have k: "0 < k" by simp
    have sb: "shape1 buf = c" and sc: "shape1 chunk = n"
      using shape1_rect [OF rb k] shape1_rect [OF rc k] by simp_all
    show ?thesis
    proof (cases "n = 0")
      case True
      have "map2 (\<lambda>b r. drop n b @ r) buf chunk = buf"
        using lb lc rowc True by (intro nth_equalityI) simp_all
      with True c show ?thesis by (simp add: roll_buffer_def sc)
    next
      case n: False
      show ?thesis
      proof (cases "c \<le> n")
        case True
        have "map (slice_from_neg c) chunk = map (drop (n - c)) chunk"
          using lc rowc c by (intro nth_equalityI) (simp_all add: slice_from_neg_pos)
        with True n show ?thesis by (simp add: roll_buffer_def sb sc Let_def)
      next
        case False
        have "map2 (\<lambda>r p. take (length r - n) r @ p)
                (map (\<lambda>r. drop n r @ drop (length r - n) r) buf) chunk
              = map2 (\<lambda>b r. drop n b @ r) buf chunk"
          using lb lc rowb False by (intro nth_equalityI) simp_all
        with False n show ?thesis
          by (simp add: roll_buffer_def sb sc Let_def broadcast_rows_same lb lc)
      qed
    qed
  qed
  have rect: "rectangular k c ?res"
    using lb lc rowb rowc by (auto simp: rectangular_def list_all_length)
  have same: "?res = chunk" if "n = c"
    using that lc rowc by (intro nth_equalityI) simp_all
  from eq rect same show ?thesis by simp
qed

theorem ring_buffer_append_witness:
  "roll_buffer [[NaN, NaN, Num 1], [NaN, NaN, Num 2]] [[Num 3, Num 4], [Num 5, Num 6]]
     = ([[Num 1, Num 3, Num 4], [Num 2, Num 5, Num 6]], None)
   \<and> fst (roll_buffer [[NaN, NaN, Num 1], [NaN, NaN, Num 2]]
            [[Num 3, Num 4, Num 5], [Num 6, Num 7, Num 8]])
       = [[Num 3, Num 4, Num 5], [Num 6, Num 7, Num 8]]
   \<and> no_sentinel (fst (roll_buffer [[NaN, NaN, Num 1], [NaN, NaN, Num 2]]
            [[Num 3, Num 4, Num 5], [Num 6, Num 7, Num 8]]))"
proof -
  let ?buf = "[[NaN, NaN, Num 1], [NaN, NaN, Num 2]]"
  have rb: "rectangular 2 3 ?buf" by (simp add: rectangular_def)
  have r2: "rectangular 2 2 [[Num 3, Num 4], [Num 5, Num 6]]" by (simp add: rectangular_def)
  have r3: "rectangular 2 3 [[Num 3, Num 4, Num 5], [Num 6, Num 7, Num 8]]"
    by (simp add: rectangular_def)
  have c: "(0::nat) < 3" by simp
  have ns: "no_sentinel [[Num 3, Num 4, Num 5], [Num 6, Num 7, Num 8]]"
    by (simp add: no_sentinel_def isnan_def)
  from ring_buffer_append [OF rb r2 c] ring_buffer_append [OF rb r3 c] ns
  show ?thesis by simp
qed

subsection \<open>Display smoother\<close>

lemma sum_window:
  assumes "data \<noteq> []"
  shows "(\<Sum>k\<leftarrow>[0..<w]. nearest_at (map clean_value data) (int i - int (w div 2) + int k))
       = sum_list (map clean_value (window_samples data w i))"
proof -
  have "nearest_at (map clean_value data) j
      = clean_value (data ! nat (max 0 (min j (int (length data) - 1))))" for j
  proof -
    from assms have "0 < length data" by simp
    then have "nat (max 0 (min j (int (length data) - 1))) < length data" by linarith
    then show ?thesis by (simp add: nearest_at_def)
  qed
  then show ?thesis by (simp add: window_samples_def comp_def)
qed

text \<open>
  C5 as stated does not hold: sentinel samples are not excluded from the average, they
  enter it as zeros. With a window of 3 samples the vector (NaN, 6, 6) is smoothed to
  (NaN, 4, 6): the middle value is (0 + 6 + 6) / 3, while the average of the samples in
  its window that are not the sentinel is 6.
\<close>

theorem display_smoothing_counterexample:
  "smooth_display_data demo_engine [NaN, Num 6, Num 6] = [NaN, Num 4, Num 6]
   \<and> nan_excluding_mean [NaN, Num 6, Num 6] 3 1 = 6"
  by code_simp

text \<open>
  C5, amended. If smoothing is disabled the input is returned unchanged. If it is
  enabled, the window is longer than one sample, SciPy is available and the input is not
  entirely sentinel, the output has the length of the input, sentinel positions remain
  sentinel, and every other output value is the sum of the samples in the edge-extended
  centered window, each sentinel counted as 0, divided by the window length.
\<close>

theorem display_smoothing:
  "(\<not> smoothing_enabled s \<longrightarrow> smooth_display_data s data = data)
   \<and> (smoothing_enabled s \<and> 1 < smooth_win s \<and> scipy_available s \<and> \<not> list_all isnan data \<longrightarrow>
        length (smooth_display_data s data) = length data
        \<and> (\<forall>i < length data.
              smooth_display_data s data ! i =
                (if isnan (data ! i) then NaN
                 else Num (sum_list (map clean_value (window_samples data (nat (smooth_win s)) i))
                           / real (nat (smooth_win s))))))"
proof (intro conjI impI)
  assume "\<not> smoothing_enabled s"
  then show "smooth_display_data s data = data" by (simp add: smooth_display_data_def)
next
  assume a: "smoothing_enabled s \<and> 1 < smooth_win s \<and> scipy_available s \<and> \<not> list_all isnan data"
  then have ne: "data \<noteq> []" by auto
  let ?w = "nat (smooth_win s)"
  have all: "list_all id (map isnan data) = list_all isnan data"
    by (simp add: list_all_iff)
  have eq: "smooth_display_data s data =
      map2 (\<lambda>m v. if m then NaN else Num v) (map isnan data)
        (uniform_filter1d (map clean_value data) ?w)"
    using a by (simp add: smooth_display_data_def Let_def all)
  have lu: "length (uniform_filter1d (map clean_value data) ?w) = length data"
    by (simp add: uniform_filter1d_def)
  show "length (smooth_display_data s data) = length data"
    unfolding eq using lu by simp
  show "\<forall>i < length data.
      smooth_display_data s data ! i =
        (if isnan (data ! i) then NaN
         else Num (sum_list (map clean_value (window_samples data ?w i)) / real ?w))"
  proof (intro allI impI)
    fix i
    assume i: "i < length data"
    have "uniform_filter1d (map clean_value data) ?w ! i
        = sum_list (map clean_value (window_samples data ?w i)) / real ?w"
      using i by (simp add: uniform_filter1d_def sum_window [OF ne])
    with i lu show "smooth_display_data s data ! i =
        (if isnan (data ! i) then NaN
         else Num (sum_list (map clean_value (window_samples data ?w i)) / real ?w))"
      unfolding eq by simp
  qed
qed

theorem display_smoothing_witness:
  "smooth_display_data demo_engine [NaN, Num 6, Num 6] ! 1 = Num 4
   \<and> smooth_display_data (demo_engine\<lparr>smoothing_enabled := False\<rparr>) [NaN, Num 6, Num 6]
       = [NaN, Num 6, Num 6]"
proof -
  let ?d = "[NaN, Num 6, Num 6]"
  have w: "smooth_win demo_engine = 3"
    by code_simp
  have h: "smoothing_enabled demo_engine \<and> 1 < smooth_win demo_engine
      \<and> scipy_available demo_engine \<and> \<not> list_all isnan ?d"
    unfolding w by (simp add: demo_engine_def isnan_def)
  have ws: "sum_list (map clean_value (window_samples ?d 3 (Suc 0))) = 12"
    by code_simp
  have off: "\<not> smoothing_enabled (demo_engine\<lparr>smoothing_enabled := False\<rparr>)" by simp
  from display_smoothing [of demo_engine ?d] h
  have "smooth_display_data demo_engine ?d ! 1 =
      (if isnan (?d ! 1) then NaN
       else Num (sum_list (map clean_value (window_samples ?d (nat (smooth_win demo_engine)) 1))
                 / real (nat (smooth_win demo_engine))))"
    by simp
  then have a: "smooth_display_data demo_engine ?d ! 1 = Num 4"
    unfolding w by (simp add: ws isnan_def)
  from display_smoothing [of "demo_engine\<lparr>smoothing_enabled := False\<rparr>" ?d] off
  have b: "smooth_display_data (demo_engine\<lparr>smoothing_enabled := False\<rparr>) ?d = ?d" by blast
  from a b show ?thesis by (intro conjI)
qed

end
